theory Spec2Isabelle
  imports Main "HOL-Library.AList"
begin

section \<open>Entities (server/shared/schema.ts)\<close>

text \<open>
  The row types inferred from the table declarations. A column declared without
  \<open>notNull\<close> has type \<open>T | null\<close> and is an \<open>option\<close> here. Integer columns are
  \<open>int\<close>: the store only ever adds or subtracts one, far inside the range where a
  JavaScript number is an exact integer. A \<open>Date\<close> is its millisecond time value.
  Strings are lists of characters. Field names that several tables share (\<open>id\<close>,
  \<open>createdAt\<close>, ...) carry a prefix for their table.
\<close>

type_synonym date = int

record user =
  u_id :: string
  username :: string
  email :: string
  password :: string
  displayName :: string
  avatar :: "string option"
  bio :: "string option"
  isVerified :: "bool option"
  isPrivate :: "bool option"
  followerCount :: "int option"
  followingCount :: "int option"
  tweetCount :: "int option"
  u_createdAt :: "date option"
  u_updatedAt :: "date option"
  u_deletedAt :: "date option"

record tweet =
  t_id :: string
  content :: string
  authorId :: string
  parentTweetId :: "string option"
  isRetweet :: "bool option"
  originalTweetId :: "string option"
  mediaUrls :: "string list option"
  hashtags :: "string list option"
  t_createdAt :: "date option"
  t_updatedAt :: "date option"
  t_deletedAt :: "date option"

record mention =
  m_id :: string
  m_tweetId :: string
  m_userId :: string
  m_createdAt :: "date option"

record follow =
  f_id :: string
  followerId :: string
  followingId :: string
  f_createdAt :: "date option"

datatype engagementType = Like | Retweet | Bookmark

record tweetEngagement =
  e_id :: string
  e_tweetId :: string
  e_userId :: string
  e_type :: engagementType
  e_createdAt :: "date option"

record tweetStats =
  s_tweetId :: string
  replyCount :: "int option"
  retweetCount :: "int option"
  likeCount :: "int option"
  bookmarkCount :: "int option"
  impressionCount :: "int option"
  s_updatedAt :: "date option"

text \<open>\<open>interface TweetWithAuthor extends Tweet\<close>: the tweet's own fields, the author
  row, the raw mention tokens, and the optional \<open>stats\<close> that no code path sets.\<close>

record tweetWithAuthor = tweet +
  author :: user
  mentionList :: "string list"
  stats :: "tweetStats option"

text \<open>\<open>interface UserProfile extends User\<close>: every field of the user row, and two
  optional booleans.\<close>

record userProfile = user +
  p_isFollowing :: "bool option"
  p_isFollowedBy :: "bool option"

record insertUser =
  iu_username :: string
  iu_email :: string
  iu_password :: string
  iu_displayName :: string
  passwordConfirmation :: "string option"

section \<open>The JavaScript \<open>Map\<close>\<close>

text \<open>
  A \<open>Map\<close> iterates in insertion order; \<open>set\<close> on a present key replaces the value
  in place, on an absent key appends; \<open>delete\<close> answers whether the key was there.
  It is an association list whose keys are pairwise different.
\<close>

type_synonym 'v jsmap = "(string \<times> 'v) list"

definition map_get :: "'v jsmap \<Rightarrow> string \<Rightarrow> 'v option" where
  "map_get m k = map_of m k"

definition map_set :: "'v jsmap \<Rightarrow> string \<Rightarrow> 'v \<Rightarrow> 'v jsmap" where
  "map_set m k v = AList.update k v m"

definition map_delete :: "'v jsmap \<Rightarrow> string \<Rightarrow> bool \<times> 'v jsmap" where
  "map_delete m k = (map_of m k \<noteq> None, AList.delete k m)"

definition map_values :: "'v jsmap \<Rightarrow> 'v list" where
  "map_values m = map snd m"

section \<open>The store (server/storage.ts, class MemStorage)\<close>

record store =
  users :: "user jsmap"
  tweets :: "tweet jsmap"
  mentions :: "mention jsmap"
  follows :: "follow jsmap"
  engagements :: "tweetEngagement jsmap"
  tweetStats :: "tweetStats jsmap"

text \<open>Every \<open>throw new Error(msg)\<close> of the store, one constructor per message.\<close>

datatype error =
    TweetNotFound
  | CannotFollowYourself
  | AlreadyFollowing
  | NotFollowing
  | AlreadyEngaged engagementType
  | NoEngagementFound engagementType

text \<open>
  An operation takes the store and returns what the call yields (\<open>Inl\<close> the thrown
  error, \<open>Inr\<close> the value) together with the store it leaves behind, so that the
  state after a failed call is part of the model. \<open>randomUUID()\<close> and \<open>new Date()\<close>
  are read from the environment: the generated id and the clock readings are
  arguments of the operation.
\<close>

definition emptyStore :: store where
  "emptyStore = \<lparr>users = [], tweets = [], mentions = [], follows = [],
     engagements = [], tweetStats = []\<rparr>"

definition reset :: "store \<Rightarrow> store" where
  "reset s = emptyStore"

definition getUser :: "store \<Rightarrow> string \<Rightarrow> user option" where
  "getUser s uid = map_get (users s) uid"

definition getUserByUsername :: "store \<Rightarrow> string \<Rightarrow> user option" where
  "getUserByUsername s name = find (\<lambda>u. username u = name) (map_values (users s))"

definition getUserByEmail :: "store \<Rightarrow> string \<Rightarrow> user option" where
  "getUserByEmail s mail = find (\<lambda>u. email u = mail) (map_values (users s))"

definition getUserByEmailOrUsername :: "store \<Rightarrow> string \<Rightarrow> user option" where
  "getUserByEmailOrUsername s x =
     find (\<lambda>u. email u = x \<or> username u = x) (map_values (users s))"

definition defaultAvatar :: string where
  "defaultAvatar = ''https://images.unsplash.com/photo-1472099645785-5658abf4ff4e?ixlib=rb-4.0.3&auto=format&fit=crop&w=100&h=100''"

definition createUser :: "store \<Rightarrow> insertUser \<Rightarrow> string \<Rightarrow> date \<Rightarrow> date \<Rightarrow> user \<times> store" where
  "createUser s d uid now now' =
     (let u = \<lparr>u_id = uid, username = iu_username d, email = iu_email d,
                password = iu_password d, displayName = iu_displayName d,
                avatar = Some defaultAvatar, bio = None,
                isVerified = Some False, isPrivate = Some False,
                followerCount = Some 0, followingCount = Some 0, tweetCount = Some 0,
                u_createdAt = Some now, u_updatedAt = Some now', u_deletedAt = None\<rparr>
      in (u, s\<lparr>users := map_set (users s) uid u\<rparr>))"

definition createTweet :: "store \<Rightarrow> string \<Rightarrow> string \<Rightarrow> string \<Rightarrow> date \<Rightarrow> date \<Rightarrow> tweet \<times> store" where
  "createTweet s c aid tid now now' =
     (let t = \<lparr>t_id = tid, content = c, authorId = aid, parentTweetId = None,
                isRetweet = Some False, originalTweetId = None, mediaUrls = None,
                hashtags = None, t_createdAt = Some now, t_updatedAt = Some now',
                t_deletedAt = None\<rparr>
      in (t, s\<lparr>tweets := map_set (tweets s) tid t\<rparr>))"

definition getTweetById :: "store \<Rightarrow> string \<Rightarrow> tweet option" where
  "getTweetById s tid = map_get (tweets s) tid"

definition updateTweet :: "store \<Rightarrow> string \<Rightarrow> string \<Rightarrow> (error + tweet) \<times> store" where
  "updateTweet s tid c =
     (case map_get (tweets s) tid of
        None \<Rightarrow> (Inl TweetNotFound, s)
      | Some existingTweet \<Rightarrow>
          (let updatedTweet = existingTweet\<lparr>content := c\<rparr>
           in (Inr updatedTweet, s\<lparr>tweets := map_set (tweets s) tid updatedTweet\<rparr>)))"

text \<open>\<open>mentionsToDelete.forEach(mention => this.mentions.delete(mention.id))\<close>\<close>

definition deleteEach :: "mention jsmap \<Rightarrow> mention list \<Rightarrow> mention jsmap" where
  "deleteEach m ms = foldl (\<lambda>acc x. snd (map_delete acc (m_id x))) m ms"

definition deleteTweet :: "store \<Rightarrow> string \<Rightarrow> (error + unit) \<times> store" where
  "deleteTweet s tid =
     (let (deleted, tweets') = map_delete (tweets s) tid
      in if \<not> deleted then (Inl TweetNotFound, s\<lparr>tweets := tweets'\<rparr>)
         else
           (let mentionsToDelete = filter (\<lambda>x. m_tweetId x = tid) (map_values (mentions s))
            in (Inr (), s\<lparr>tweets := tweets',
                          mentions := deleteEach (mentions s) mentionsToDelete\<rparr>)))"


subsection \<open>Mention tokens: the scan with \<open>/@(\w+)/g\<close>\<close>

text \<open>\<open>\w\<close> without the unicode flag is \<open>[A-Za-z0-9_]\<close>; no character outside ASCII
  is a word character, in the source as here.\<close>

definition isWordChar :: "char \<Rightarrow> bool" where
  "isWordChar c \<longleftrightarrow>
     c \<in> set (''abcdefghijklmnopqrstuvwxyz'' @ ''ABCDEFGHIJKLMNOPQRSTUVWXYZ'' @ ''0123456789_'')"

text \<open>
  The \<open>while ((match = mentionRegex.exec(content)) !== null)\<close> loop: the next match
  is the leftmost \<open>@\<close> followed by at least one word character, its group is the
  longest run of word characters there, and the search resumes behind the match.
\<close>

function extractMentionsFromContent :: "string \<Rightarrow> string list" where
  "extractMentionsFromContent [] = []"
| "extractMentionsFromContent (c # cs) =
     (if c = CHR ''@'' \<and> takeWhile isWordChar cs \<noteq> []
      then takeWhile isWordChar cs # extractMentionsFromContent (dropWhile isWordChar cs)
      else extractMentionsFromContent cs)"
  by pat_completeness auto
termination
  by (relation "measure length") (auto simp: length_dropWhile_le less_Suc_eq_le)

subsection \<open>Tweets joined with their author\<close>

text \<open>\<open>new Date(x.createdAt || 0).getTime()\<close>: a \<open>Date\<close> object is truthy, \<open>null\<close>
  gives the epoch.\<close>

definition timeOf :: "'a tweet_scheme \<Rightarrow> int" where
  "timeOf t = (case t_createdAt t of None \<Rightarrow> 0 | Some d \<Rightarrow> d)"

text \<open>\<open>xs.sort((a, b) => time(b) - time(a))\<close>: \<open>Array.prototype.sort\<close> is stable, and
  so is the insertion sort \<open>sort_key\<close>; an element goes first when its time is larger.\<close>

definition sortByCreatedAtDesc :: "tweetWithAuthor list \<Rightarrow> tweetWithAuthor list" where
  "sortByCreatedAtDesc xs = sort_key (\<lambda>t. - timeOf t) xs"

text \<open>\<open>{ ...tweet, author, mentions }\<close>\<close>

definition joinAuthor :: "tweet \<Rightarrow> user \<Rightarrow> tweetWithAuthor" where
  "joinAuthor t a =
     tweet.extend t (tweetWithAuthor.fields a (extractMentionsFromContent (content t)) None)"

definition tweetsWithAuthors :: "store \<Rightarrow> tweet list \<Rightarrow> tweetWithAuthor list" where
  "tweetsWithAuthors s ts =
     concat (map (\<lambda>t. case getUser s (authorId t) of
                         None \<Rightarrow> []
                       | Some a \<Rightarrow> [joinAuthor t a]) ts)"

definition getAllTweets :: "store \<Rightarrow> tweetWithAuthor list" where
  "getAllTweets s = sortByCreatedAtDesc (tweetsWithAuthors s (map_values (tweets s)))"

definition getUserTweets :: "store \<Rightarrow> string \<Rightarrow> tweetWithAuthor list" where
  "getUserTweets s uid = filter (\<lambda>t. authorId t = uid) (getAllTweets s)"

text \<open>\<open>self.findIndex(p)\<close>: the first index whose element satisfies \<open>p\<close>, or \<open>-1\<close>.\<close>

fun findIndex :: "('a \<Rightarrow> bool) \<Rightarrow> 'a list \<Rightarrow> int" where
  "findIndex p [] = - 1"
| "findIndex p (x # xs) =
     (if p x then 0 else (let r = findIndex p xs in if r < 0 then - 1 else r + 1))"

text \<open>\<open>mentionedUser?.id === userId\<close> is false when no user carries the name.\<close>

definition mentionResolvesTo :: "store \<Rightarrow> string \<Rightarrow> string \<Rightarrow> bool" where
  "mentionResolvesTo s uid m =
     (case find (\<lambda>u. username u = m) (map_values (users s)) of
        None \<Rightarrow> False
      | Some mentionedUser \<Rightarrow> u_id mentionedUser = uid)"

definition uniqueById :: "tweetWithAuthor list \<Rightarrow> tweetWithAuthor list" where
  "uniqueById timeline =
     map snd (filter (\<lambda>(index, t). int index = findIndex (\<lambda>t'. t_id t' = t_id t) timeline)
                     (enumerate 0 timeline))"

definition getUserTimeline :: "store \<Rightarrow> string \<Rightarrow> tweetWithAuthor list" where
  "getUserTimeline s uid =
     (let allTweets = getAllTweets s;
          userTweets = filter (\<lambda>t. authorId t = uid) allTweets;
          mentionTweets = filter (\<lambda>t. list_ex (mentionResolvesTo s uid) (mentionList t)) allTweets;
          timeline = userTweets @ mentionTweets
      in sortByCreatedAtDesc (uniqueById timeline))"

subsection \<open>Mentions\<close>

definition createMention :: "store \<Rightarrow> string \<Rightarrow> string \<Rightarrow> string \<Rightarrow> date \<Rightarrow> mention \<times> store" where
  "createMention s tid uid mid now =
     (let m = \<lparr>m_id = mid, m_tweetId = tid, m_userId = uid, m_createdAt = Some now\<rparr>
      in (m, s\<lparr>mentions := map_set (mentions s) mid m\<rparr>))"

definition getTweetMentions :: "store \<Rightarrow> string \<Rightarrow> user list" where
  "getTweetMentions s tid =
     concat (map (\<lambda>x. case getUser s (m_userId x) of None \<Rightarrow> [] | Some u \<Rightarrow> [u])
                 (filter (\<lambda>x. m_tweetId x = tid) (map_values (mentions s))))"

definition getUserMentions :: "store \<Rightarrow> string \<Rightarrow> tweetWithAuthor list" where
  "getUserMentions s uid =
     sortByCreatedAtDesc
       (concat (map (\<lambda>x. case getTweetById s (m_tweetId x) of
                            None \<Rightarrow> []
                          | Some t \<Rightarrow> tweetsWithAuthors s [t])
                    (filter (\<lambda>x. m_userId x = uid) (map_values (mentions s)))))"

subsection \<open>Follow graph\<close>

definition isFollowing :: "store \<Rightarrow> string \<Rightarrow> string \<Rightarrow> bool" where
  "isFollowing s a b =
     list_ex (\<lambda>f. followerId f = a \<and> followingId f = b) (map_values (follows s))"

text \<open>
  \<open>const profile: UserProfile = { ...user }\<close> copies every field of the row. The
  optional \<open>viewerId\<close> is \<open>None\<close> when the argument is left out; the empty string is
  falsy, as \<open>undefined\<close> is.
\<close>

definition getUserProfile :: "store \<Rightarrow> string \<Rightarrow> string option \<Rightarrow> userProfile option" where
  "getUserProfile s uid viewerId =
     (case getUser s uid of
        None \<Rightarrow> None
      | Some u \<Rightarrow>
          (let profile = user.extend u (userProfile.fields None None)
           in case viewerId of
                None \<Rightarrow> Some profile
              | Some v \<Rightarrow>
                  if v \<noteq> [] \<and> v \<noteq> uid
                  then Some (profile\<lparr>p_isFollowing := Some (isFollowing s v uid),
                                      p_isFollowedBy := Some (isFollowing s uid v)\<rparr>)
                  else Some profile))"

text \<open>\<open>x || 0\<close> on a \<open>number | null\<close> counter.\<close>

definition orZero :: "int option \<Rightarrow> int" where
  "orZero c = (case c of None \<Rightarrow> 0 | Some n \<Rightarrow> n)"

definition findFollow :: "store \<Rightarrow> string \<Rightarrow> string \<Rightarrow> follow option" where
  "findFollow s a b =
     find (\<lambda>f. followerId f = a \<and> followingId f = b) (map_values (follows s))"

text \<open>Both user rows are read before either is written.\<close>

definition followUser :: "store \<Rightarrow> string \<Rightarrow> string \<Rightarrow> string \<Rightarrow> date \<Rightarrow> (error + follow) \<times> store" where
  "followUser s a b fid now =
     (if a = b then (Inl CannotFollowYourself, s)
      else case findFollow s a b of
        Some existingFollow \<Rightarrow> (Inl AlreadyFollowing, s)
      | None \<Rightarrow>
          (let fl = \<lparr>f_id = fid, followerId = a, followingId = b, f_createdAt = Some now\<rparr>;
               follows' = map_set (follows s) fid fl;
               follower = map_get (users s) a;
               following = map_get (users s) b;
               users1 = (case follower of
                           None \<Rightarrow> users s
                         | Some u \<Rightarrow> map_set (users s) a
                             (u\<lparr>followingCount := Some (orZero (followingCount u) + 1)\<rparr>));
               users2 = (case following of
                           None \<Rightarrow> users1
                         | Some u \<Rightarrow> map_set users1 b
                             (u\<lparr>followerCount := Some (orZero (followerCount u) + 1)\<rparr>))
           in (Inr fl, s\<lparr>follows := follows', users := users2\<rparr>)))"

definition unfollowUser :: "store \<Rightarrow> string \<Rightarrow> string \<Rightarrow> (error + unit) \<times> store" where
  "unfollowUser s a b =
     (case findFollow s a b of
        None \<Rightarrow> (Inl NotFollowing, s)
      | Some fl \<Rightarrow>
          (let follows' = snd (map_delete (follows s) (f_id fl));
               follower = map_get (users s) a;
               following = map_get (users s) b;
               users1 = (case follower of
                           None \<Rightarrow> users s
                         | Some u \<Rightarrow> map_set (users s) a
                             (u\<lparr>followingCount := Some (max 0 (orZero (followingCount u) - 1))\<rparr>));
               users2 = (case following of
                           None \<Rightarrow> users1
                         | Some u \<Rightarrow> map_set users1 b
                             (u\<lparr>followerCount := Some (max 0 (orZero (followerCount u) - 1))\<rparr>))
           in (Inr (), s\<lparr>follows := follows', users := users2\<rparr>)))"

definition profilesOf :: "store \<Rightarrow> string list \<Rightarrow> userProfile list" where
  "profilesOf s ids =
     concat (map (\<lambda>i. case getUserProfile s i None of None \<Rightarrow> [] | Some p \<Rightarrow> [p]) ids)"

definition getUserFollowers :: "store \<Rightarrow> string \<Rightarrow> userProfile list" where
  "getUserFollowers s uid =
     profilesOf s (map followerId (filter (\<lambda>f. followingId f = uid) (map_values (follows s))))"

definition getUserFollowing :: "store \<Rightarrow> string \<Rightarrow> userProfile list" where
  "getUserFollowing s uid =
     profilesOf s (map followingId (filter (\<lambda>f. followerId f = uid) (map_values (follows s))))"

subsection \<open>Engagements and per-tweet counters\<close>

definition findEngagement :: "store \<Rightarrow> string \<Rightarrow> string \<Rightarrow> engagementType \<Rightarrow> tweetEngagement option" where
  "findEngagement s uid tid ty =
     find (\<lambda>e. e_userId e = uid \<and> e_tweetId e = tid \<and> e_type e = ty)
          (map_values (engagements s))"

text \<open>
  The row is created with every counter at zero when the tweet has none, the counter
  of the given type moves by \<open>delta\<close> and is floored at zero, and \<open>updatedAt\<close> is set
  last. The clock is read twice: \<open>now0\<close> for the \<open>updatedAt\<close> of a fresh row, which
  the later assignment of \<open>now\<close> overwrites.
\<close>

definition updateTweetStatsForEngagement :: "store \<Rightarrow> string \<Rightarrow> engagementType \<Rightarrow> int \<Rightarrow> date \<Rightarrow> date \<Rightarrow> store" where
  "updateTweetStatsForEngagement s tid ty delta now0 now =
     (let st0 = (case map_get (tweetStats s) tid of
                   Some st \<Rightarrow> st
                 | None \<Rightarrow> \<lparr>s_tweetId = tid, replyCount = Some 0, retweetCount = Some 0,
                            likeCount = Some 0, bookmarkCount = Some 0,
                            impressionCount = Some 0, s_updatedAt = Some now0\<rparr>);
          st1 = (case ty of
                   Like \<Rightarrow> st0\<lparr>likeCount := Some (max 0 (orZero (likeCount st0) + delta))\<rparr>
                 | Retweet \<Rightarrow> st0\<lparr>retweetCount := Some (max 0 (orZero (retweetCount st0) + delta))\<rparr>
                 | Bookmark \<Rightarrow> st0\<lparr>bookmarkCount := Some (max 0 (orZero (bookmarkCount st0) + delta))\<rparr>);
          st2 = st1\<lparr>s_updatedAt := Some now\<rparr>
      in s\<lparr>tweetStats := map_set (tweetStats s) tid st2\<rparr>)"

text \<open>
  \<open>engageWithTweet\<close> reads the clock for the record's \<open>createdAt\<close> (\<open>now\<close>) and then,
  inside \<open>updateTweetStatsForEngagement\<close>, for the stats row (\<open>now0\<close>, \<open>now1\<close>);
  \<open>removeEngagement\<close> reads it for the stats row only.
\<close>

definition engageWithTweet :: "store \<Rightarrow> string \<Rightarrow> string \<Rightarrow> engagementType \<Rightarrow> string \<Rightarrow> date \<Rightarrow> date \<Rightarrow> date \<Rightarrow> (error + tweetEngagement) \<times> store" where
  "engageWithTweet s uid tid ty eid now now0 now1 =
     (case findEngagement s uid tid ty of
        Some existingEngagement \<Rightarrow> (Inl (AlreadyEngaged ty), s)
      | None \<Rightarrow>
          (let e = \<lparr>e_id = eid, e_tweetId = tid, e_userId = uid, e_type = ty,
                     e_createdAt = Some now\<rparr>;
               s1 = s\<lparr>engagements := map_set (engagements s) eid e\<rparr>
           in (Inr e, updateTweetStatsForEngagement s1 tid ty 1 now0 now1)))"

definition removeEngagement :: "store \<Rightarrow> string \<Rightarrow> string \<Rightarrow> engagementType \<Rightarrow> date \<Rightarrow> date \<Rightarrow> (error + unit) \<times> store" where
  "removeEngagement s uid tid ty now0 now1 =
     (case findEngagement s uid tid ty of
        None \<Rightarrow> (Inl (NoEngagementFound ty), s)
      | Some e \<Rightarrow>
          (let s1 = s\<lparr>engagements := snd (map_delete (engagements s) (e_id e))\<rparr>
           in (Inr (), updateTweetStatsForEngagement s1 tid ty (- 1) now0 now1)))"

definition getTweetStats :: "store \<Rightarrow> string \<Rightarrow> tweetStats option" where
  "getTweetStats s tid = map_get (tweetStats s) tid"

definition getUserEngagement :: "store \<Rightarrow> string \<Rightarrow> string \<Rightarrow> tweetEngagement list" where
  "getUserEngagement s uid tid =
     filter (\<lambda>e. e_userId e = uid \<and> e_tweetId e = tid) (map_values (engagements s))"


section \<open>The tweet-creation handler (server/routes.ts, POST /api/tweets)\<close>

text \<open>
  The handler runs behind \<open>authenticateToken\<close>, which supplies the caller's id. The
  body's \<open>content\<close> is \<open>None\<close> when the field is missing or not a string;
  \<open>insertTweetSchema.parse\<close> accepts 1 to 280 characters and throws otherwise, which
  the handler answers with status 400. The ids and clock readings generated while the
  request runs are \<open>uuid 0, uuid 1, ...\<close> and \<open>clock 0, clock 1, ...\<close> in the order
  of the calls. routes.ts has its own copy of \<open>extractMentionsFromContent\<close>, the same
  code as the store's.
\<close>

record tweetResponse = tweet +
  r_author :: "user option"
  r_mentions :: "string list"

datatype httpResponse = Created tweetResponse | BadRequest

definition insertTweetSchema_parse :: "string option \<Rightarrow> string option" where
  "insertTweetSchema_parse body =
     (case body of
        None \<Rightarrow> None
      | Some c \<Rightarrow> if 1 \<le> length c \<and> length c \<le> 280 then Some c else None)"

fun createMentionsFor :: "store \<Rightarrow> string \<Rightarrow> string list \<Rightarrow> (nat \<Rightarrow> string) \<Rightarrow> (nat \<Rightarrow> date) \<Rightarrow> nat \<Rightarrow> store" where
  "createMentionsFor s tid [] uuid clock k = s"
| "createMentionsFor s tid (name # rest) uuid clock k =
     (case getUserByUsername s name of
        None \<Rightarrow> createMentionsFor s tid rest uuid clock k
      | Some mentionedUser \<Rightarrow>
          createMentionsFor
            (snd (createMention s tid (u_id mentionedUser) (uuid (Suc k)) (clock (k + 2))))
            tid rest uuid clock (Suc k))"

definition postTweet :: "store \<Rightarrow> string \<Rightarrow> string option \<Rightarrow> (nat \<Rightarrow> string) \<Rightarrow> (nat \<Rightarrow> date) \<Rightarrow> httpResponse \<times> store" where
  "postTweet s authId body uuid clock =
     (case insertTweetSchema_parse body of
        None \<Rightarrow> (BadRequest, s)
      | Some c \<Rightarrow>
          (let (t, s1) = createTweet s c authId (uuid 0) (clock 0) (clock 1);
               s2 = createMentionsFor s1 (t_id t) (extractMentionsFromContent c) uuid clock 0;
               a = getUser s2 (authorId t)
           in (Created (tweet.extend t (tweetResponse.fields a (extractMentionsFromContent c))),
               s2)))"

section \<open>Store states\<close>

text \<open>
  What every state that the operations can produce has in common: in each map the
  keys are pairwise different and a row is stored under its own id; the follow
  counters of a user are numbers at or above zero; the per-type counters of a stats
  row are not negative; the follow map has at most one edge for an ordered pair.
\<close>

definition keyed :: "('v \<Rightarrow> string) \<Rightarrow> 'v jsmap \<Rightarrow> bool" where
  "keyed idf m \<longleftrightarrow> distinct (map fst m) \<and> (\<forall>(k, v) \<in> set m. idf v = k)"

definition countersOk :: "user \<Rightarrow> bool" where
  "countersOk u \<longleftrightarrow>
     (case followerCount u of None \<Rightarrow> False | Some n \<Rightarrow> 0 \<le> n) \<and>
     (case followingCount u of None \<Rightarrow> False | Some n \<Rightarrow> 0 \<le> n)"

definition statsOk :: "tweetStats \<Rightarrow> bool" where
  "statsOk st \<longleftrightarrow>
     0 \<le> orZero (likeCount st) \<and> 0 \<le> orZero (retweetCount st) \<and> 0 \<le> orZero (bookmarkCount st)"

definition edgesUnique :: "follow list \<Rightarrow> bool" where
  "edgesUnique fs \<longleftrightarrow>
     (\<forall>f \<in> set fs. \<forall>g \<in> set fs.
        followerId f = followerId g \<and> followingId f = followingId g \<longrightarrow> f = g)"

definition usersOk :: "user jsmap \<Rightarrow> bool" where
  "usersOk us \<longleftrightarrow> keyed u_id us \<and> (\<forall>u \<in> set (map_values us). countersOk u)"

definition statsRowsOk :: "tweetStats jsmap \<Rightarrow> bool" where
  "statsRowsOk m \<longleftrightarrow> keyed s_tweetId m \<and> (\<forall>st \<in> set (map_values m). statsOk st)"

definition followsOk :: "follow jsmap \<Rightarrow> bool" where
  "followsOk m \<longleftrightarrow> keyed f_id m \<and> edgesUnique (map_values m)"

definition store_inv :: "store \<Rightarrow> bool" where
  "store_inv s \<longleftrightarrow>
     usersOk (users s) \<and> keyed t_id (tweets s) \<and> keyed m_id (mentions s) \<and>
     followsOk (follows s) \<and> keyed e_id (engagements s) \<and> statsRowsOk (tweetStats s)"

text \<open>
  The states of a \<open>MemStorage\<close>: the empty store that the constructor builds, and
  what a mutating method makes of such a state, whatever id and clock reading the
  call draws and whether it returns or throws.
\<close>

inductive reachable :: "store \<Rightarrow> bool" where
  r_init: "reachable emptyStore"
| r_reset: "reachable s \<Longrightarrow> reachable (reset s)"
| r_createUser: "reachable s \<Longrightarrow> reachable (snd (createUser s d uid now now'))"
| r_createTweet: "reachable s \<Longrightarrow> reachable (snd (createTweet s c aid tid now now'))"
| r_updateTweet: "reachable s \<Longrightarrow> reachable (snd (updateTweet s tid c))"
| r_deleteTweet: "reachable s \<Longrightarrow> reachable (snd (deleteTweet s tid))"
| r_createMention: "reachable s \<Longrightarrow> reachable (snd (createMention s tid uid mid now))"
| r_followUser: "reachable s \<Longrightarrow> reachable (snd (followUser s a b fid now))"
| r_unfollowUser: "reachable s \<Longrightarrow> reachable (snd (unfollowUser s a b))"
| r_engage: "reachable s \<Longrightarrow> reachable (snd (engageWithTweet s uid tid ty eid now now0 now1))"
| r_remove: "reachable s \<Longrightarrow> reachable (snd (removeEngagement s uid tid ty now0 now1))"

subsection \<open>Notions used in the statements\<close>

text \<open>A sequence of follow and unfollow calls; a call that throws leaves the store
  as it was and the sequence goes on.\<close>

datatype followOp = Follow string string string date | Unfollow string string

fun applyFollowOp :: "store \<Rightarrow> followOp \<Rightarrow> store" where
  "applyFollowOp s (Follow a b fid now) = snd (followUser s a b fid now)"
| "applyFollowOp s (Unfollow a b) = snd (unfollowUser s a b)"

definition runFollowOps :: "store \<Rightarrow> followOp list \<Rightarrow> store" where
  "runFollowOps s ops = foldl applyFollowOp s ops"


section \<open>Example stores\<close>

text \<open>Small concrete states, built by the operations themselves, on which the
  theorems below are instantiated.\<close>

definition aliceDraft :: insertUser where
  "aliceDraft = \<lparr>iu_username = ''alice'', iu_email = ''alice@example.com'',
     iu_password = ''hashA'', iu_displayName = ''Alice'', passwordConfirmation = None\<rparr>"

definition bobDraft :: insertUser where
  "bobDraft = \<lparr>iu_username = ''bob'', iu_email = ''bob@example.com'',
     iu_password = ''hashB'', iu_displayName = ''Bob'', passwordConfirmation = None\<rparr>"

definition twoUsers :: store where
  "twoUsers = snd (createUser (snd (createUser emptyStore aliceDraft ''u1'' 1 1)) bobDraft ''u2'' 2 2)"

definition oneTweet :: store where
  "oneTweet = snd (createTweet twoUsers ''hi @alice'' ''u2'' ''t1'' 3 3)"

definition likedTweet :: store where
  "likedTweet = snd (engageWithTweet oneTweet ''u1'' ''t1'' Like ''e1'' 4 5 6)"

definition mentionedTweet :: store where
  "mentionedTweet = snd (createMention oneTweet ''t1'' ''u1'' ''m1'' 4)"

definition followed :: store where
  "followed = snd (followUser twoUsers ''u1'' ''u2'' ''f1'' 5)"

definition followedBack :: store where
  "followedBack = snd (followUser twoUsers ''u2'' ''u1'' ''f0'' 4)"

text \<open>An edge from \<open>u1\<close> to \<open>u2\<close> stored before either id is a user, so that no
  counter was raised for it; removing it makes \<open>unfollowUser\<close> subtract from zero.\<close>

definition earlyEdge :: store where
  "earlyEdge =
     snd (createUser (snd (createUser (snd (followUser emptyStore ''u1'' ''u2'' ''f1'' 0))
                             aliceDraft ''u1'' 1 1))
            bobDraft ''u2'' 2 2)"


text \<open>Three tweets around alice (\<open>u1\<close>): one by bob mentioning her, two of her own, one
  of which mentions her twice.\<close>

definition timelineDemo :: store where
  "timelineDemo =
     snd (createTweet (snd (createTweet oneTweet ''hello world'' ''u1'' ''t2'' 5 5))
            ''@alice @alice me'' ''u1'' ''t3'' 4 4)"

text \<open>A second registration under the username \<open>bob\<close>, which \<open>createUser\<close> accepts;
  alice then mentions \<open>bob\<close>.\<close>

definition bobAgain :: insertUser where
  "bobAgain = \<lparr>iu_username = ''bob'', iu_email = ''bob2@example.com'',
     iu_password = ''hashC'', iu_displayName = ''Bob II'', passwordConfirmation = None\<rparr>"

definition dupNames :: store where
  "dupNames =
     snd (createTweet (snd (createUser twoUsers bobAgain ''u3'' 3 3)) ''hi @bob'' ''u1'' ''t1'' 4 4)"

text \<open>A store where only alice is registered, the ids and clock readings of an
  example request, and \<open>twoUsers\<close> again with one different password hash.\<close>

definition oneUser :: store where
  "oneUser = snd (createUser emptyStore aliceDraft ''u1'' 1 1)"

definition demoUuid :: "nat \<Rightarrow> string" where
  "demoUuid k = ''id-'' @ replicate k (CHR ''x'')"

definition demoClock :: "nat \<Rightarrow> date" where
  "demoClock k = 10 + int k"

definition otherHash :: store where
  "otherHash =
     snd (createUser (snd (createUser emptyStore (aliceDraft\<lparr>iu_password := ''hashX''\<rparr>) ''u1'' 1 1))
            bobDraft ''u2'' 2 2)"

section \<open>Facts about the map operations and the invariant\<close>

lemma map_get_set: "map_get (map_set m k v) k' = (if k' = k then Some v else map_get m k')"
  by (simp add: map_get_def map_set_def update_conv')

lemma map_get_delete: "map_get (snd (map_delete m k)) k' = (if k' = k then None else map_get m k')"
  by (simp add: map_get_def map_delete_def delete_conv')

lemma map_delete_absent: "map_get m k = None \<Longrightarrow> map_delete m k = (False, m)"
  by (simp add: map_delete_def map_get_def map_of_eq_None_iff)

lemma map_delete_present: "map_get m k = Some v \<Longrightarrow> fst (map_delete m k)"
  by (simp add: map_delete_def map_get_def)

lemma map_set_fresh: "k \<notin> fst ` set m \<Longrightarrow> map_set m k v = m @ [(k, v)]"
  unfolding map_set_def by (induction m) auto

lemma values_map_set_subset: "set (map_values (map_set m k v)) \<subseteq> insert v (set (map_values m))"
  unfolding map_set_def map_values_def by (induction m) auto

lemma values_map_set_mem: "v \<in> set (map_values (map_set m k v))"
  unfolding map_set_def map_values_def by (induction m) auto

lemma values_map_delete_subset: "set (map_values (snd (map_delete m k))) \<subseteq> set (map_values m)"
  unfolding map_delete_def map_values_def by (auto simp: AList.delete_eq)

lemma keyed_Nil: "keyed idf []"
  by (simp add: keyed_def)

lemma set_map_set_subset: "set (map_set m k v) \<subseteq> insert (k, v) (set m)"
  unfolding map_set_def by (induction m) auto

lemma keyed_map_set: "keyed idf m \<Longrightarrow> idf v = k \<Longrightarrow> keyed idf (map_set m k v)"
  unfolding keyed_def using set_map_set_subset[of m k v]
  by (auto simp: map_set_def distinct_update)

lemma keyed_map_delete: "keyed idf m \<Longrightarrow> keyed idf (snd (map_delete m k))"
proof -
  assume k: "keyed idf m"
  have "distinct (map fst (AList.delete k m))"
    using k by (simp add: keyed_def distinct_delete)
  moreover have "set (AList.delete k m) \<subseteq> set m"
    by (auto simp: AList.delete_eq)
  ultimately show ?thesis
    using k unfolding keyed_def map_delete_def by auto
qed

lemma keyed_values_delete:
  "keyed idf m \<Longrightarrow> map_values (snd (map_delete m k)) = filter (\<lambda>v. idf v \<noteq> k) (map_values m)"
  unfolding keyed_def map_delete_def map_values_def
  by (induction m) (auto simp: AList.delete_eq)

lemma keyed_get_iff: "keyed idf m \<Longrightarrow> map_get m k = Some v \<longleftrightarrow> v \<in> set (map_values m) \<and> idf v = k"
  unfolding keyed_def map_get_def map_values_def by force

lemma keyed_distinct_ids: "keyed idf m \<Longrightarrow> distinct (map idf (map_values m))"
proof -
  assume k: "keyed idf m"
  then have "map idf (map_values m) = map fst m"
    unfolding keyed_def map_values_def by (induction m) auto
  with k show ?thesis by (simp add: keyed_def)
qed

lemma map_get_in_values: "map_get m k = Some v \<Longrightarrow> v \<in> set (map_values m)"
  unfolding map_get_def map_values_def by (auto dest: map_of_SomeD intro: rev_image_eqI)

lemma keyed_get_id: "keyed idf m \<Longrightarrow> map_get m k = Some v \<Longrightarrow> idf v = k"
  unfolding keyed_def map_get_def by (auto dest: map_of_SomeD)

lemma usersOk_insert:
  "usersOk us \<Longrightarrow> u_id u = k \<Longrightarrow> countersOk u \<Longrightarrow> usersOk (map_set us k u)"
  unfolding usersOk_def by (auto intro: keyed_map_set dest: subsetD[OF values_map_set_subset])

lemma usersOk_get: "usersOk us \<Longrightarrow> map_get us k = Some u \<Longrightarrow> u_id u = k \<and> countersOk u"
  unfolding usersOk_def by (auto dest: keyed_get_id map_get_in_values)

text \<open>The two guarded writes of followUser and unfollowUser, for any counter change
  that keeps the counters at or above zero.\<close>

lemma usersOk_two_writes:
  assumes ok: "usersOk us"
    and f: "\<And>u. countersOk u \<Longrightarrow> countersOk (f u) \<and> u_id (f u) = u_id u"
    and g: "\<And>u. countersOk u \<Longrightarrow> countersOk (g u) \<and> u_id (g u) = u_id u"
  shows "usersOk (case map_get us b of
                    None \<Rightarrow> (case map_get us a of None \<Rightarrow> us | Some u \<Rightarrow> map_set us a (f u))
                  | Some v \<Rightarrow> map_set (case map_get us a of None \<Rightarrow> us
                                         | Some u \<Rightarrow> map_set us a (f u)) b (g v))"
proof -
  let ?us1 = "case map_get us a of None \<Rightarrow> us | Some u \<Rightarrow> map_set us a (f u)"
  have ok1: "usersOk ?us1"
  proof (cases "map_get us a")
    case None then show ?thesis using ok by simp
  next
    case (Some u)
    with ok have "u_id u = a" "countersOk u" by (auto dest: usersOk_get)
    with f[of u] ok Some show ?thesis by (simp add: usersOk_insert)
  qed
  show ?thesis
  proof (cases "map_get us b")
    case None then show ?thesis using ok1 by simp
  next
    case (Some v)
    with ok have "u_id v = b" "countersOk v" by (auto dest: usersOk_get)
    with g[of v] ok1 Some show ?thesis by (simp add: usersOk_insert)
  qed
qed

lemma countersOk_following_up:
  "countersOk u \<Longrightarrow> countersOk (u\<lparr>followingCount := Some (orZero (followingCount u) + 1)\<rparr>)"
  by (auto simp: countersOk_def orZero_def split: option.splits)

lemma countersOk_follower_up:
  "countersOk u \<Longrightarrow> countersOk (u\<lparr>followerCount := Some (orZero (followerCount u) + 1)\<rparr>)"
  by (auto simp: countersOk_def orZero_def split: option.splits)

lemma countersOk_following_down:
  "countersOk u \<Longrightarrow> countersOk (u\<lparr>followingCount := Some (max 0 (orZero (followingCount u) - 1))\<rparr>)"
  by (auto simp: countersOk_def orZero_def split: option.splits)

lemma countersOk_follower_down:
  "countersOk u \<Longrightarrow> countersOk (u\<lparr>followerCount := Some (max 0 (orZero (followerCount u) - 1))\<rparr>)"
  by (auto simp: countersOk_def orZero_def split: option.splits)

lemma findFollow_None_iff:
  "findFollow s a b = None \<longleftrightarrow>
     (\<forall>f \<in> set (map_values (follows s)). \<not> (followerId f = a \<and> followingId f = b))"
  by (auto simp: findFollow_def find_None_iff)

lemma findFollow_SomeD:
  "findFollow s a b = Some f \<Longrightarrow>
     f \<in> set (map_values (follows s)) \<and> followerId f = a \<and> followingId f = b"
  by (auto simp: findFollow_def find_Some_iff)

lemma isFollowing_iff: "isFollowing s a b \<longleftrightarrow> findFollow s a b \<noteq> None"
  by (auto simp: isFollowing_def findFollow_None_iff list_ex_iff)

lemma followsOk_add:
  assumes ok: "followsOk m"
    and none: "\<forall>f \<in> set (map_values m). \<not> (followerId f = a \<and> followingId f = b)"
  shows "followsOk (map_set m fid \<lparr>f_id = fid, followerId = a, followingId = b, f_createdAt = d\<rparr>)"
proof -
  let ?fl = "\<lparr>f_id = fid, followerId = a, followingId = b, f_createdAt = d\<rparr>"
  have sub: "set (map_values (map_set m fid ?fl)) \<subseteq> insert ?fl (set (map_values m))"
    by (rule values_map_set_subset)
  have "edgesUnique (map_values (map_set m fid ?fl))"
    unfolding edgesUnique_def
  proof (intro ballI impI)
    fix f g
    assume f: "f \<in> set (map_values (map_set m fid ?fl))"
      and g: "g \<in> set (map_values (map_set m fid ?fl))"
      and eq: "followerId f = followerId g \<and> followingId f = followingId g"
    from f sub have f': "f = ?fl \<or> f \<in> set (map_values m)" by auto
    from g sub have g': "g = ?fl \<or> g \<in> set (map_values m)" by auto
    from f' g' eq none ok show "f = g"
      unfolding followsOk_def edgesUnique_def by auto
  qed
  with ok show ?thesis by (simp add: followsOk_def keyed_map_set)
qed

lemma followsOk_delete: "followsOk m \<Longrightarrow> followsOk (snd (map_delete m k))"
  unfolding followsOk_def edgesUnique_def
  using values_map_delete_subset[of m k] by (auto simp: keyed_map_delete)

lemma store_inv_empty: "store_inv emptyStore"
  by (simp add: store_inv_def emptyStore_def usersOk_def statsRowsOk_def followsOk_def
      keyed_Nil edgesUnique_def map_values_def)

lemma store_inv_createUser: "store_inv s \<Longrightarrow> store_inv (snd (createUser s d uid now now'))"
  by (simp add: store_inv_def createUser_def Let_def usersOk_insert countersOk_def)

lemma store_inv_createTweet: "store_inv s \<Longrightarrow> store_inv (snd (createTweet s c aid tid now now'))"
  by (simp add: store_inv_def createTweet_def Let_def keyed_map_set)

lemma store_inv_updateTweet: "store_inv s \<Longrightarrow> store_inv (snd (updateTweet s tid c))"
proof (cases "map_get (tweets s) tid")
  case None
  assume "store_inv s"
  with None show ?thesis by (simp add: updateTweet_def)
next
  case (Some t)
  assume inv: "store_inv s"
  then have "t_id t = tid" using Some by (auto simp: store_inv_def dest: keyed_get_id)
  then have "keyed t_id (map_set (tweets s) tid (t\<lparr>content := c\<rparr>))"
    using inv by (simp add: store_inv_def keyed_map_set)
  with inv Some show ?thesis by (simp add: updateTweet_def Let_def store_inv_def)
qed

lemma keyed_deleteEach: "keyed idf m \<Longrightarrow> keyed idf (deleteEach m ms)"
  unfolding deleteEach_def
  by (induction ms arbitrary: m) (simp_all add: keyed_map_delete)

lemma store_inv_deleteTweet: "store_inv s \<Longrightarrow> store_inv (snd (deleteTweet s tid))"
  by (simp add: store_inv_def deleteTweet_def split_def Let_def keyed_map_delete keyed_deleteEach)

lemma store_inv_createMention:
  "store_inv s \<Longrightarrow> store_inv (snd (createMention s tid uid mid now))"
  by (simp add: store_inv_def createMention_def Let_def keyed_map_set)

lemma store_inv_followUser: "store_inv s \<Longrightarrow> store_inv (snd (followUser s a b fid now))"
proof -
  assume inv: "store_inv s"
  show ?thesis
  proof (cases "a = b \<or> findFollow s a b \<noteq> None")
    case True
    then show ?thesis using inv by (auto simp: followUser_def)
  next
    case False
    then have none: "findFollow s a b = None" and ne: "a \<noteq> b" by auto
    have u: "usersOk (case map_get (users s) b of
                    None \<Rightarrow> (case map_get (users s) a of None \<Rightarrow> users s
                       | Some u \<Rightarrow> map_set (users s) a (u\<lparr>followingCount := Some (orZero (followingCount u) + 1)\<rparr>))
                  | Some v \<Rightarrow> map_set (case map_get (users s) a of None \<Rightarrow> users s
                       | Some u \<Rightarrow> map_set (users s) a (u\<lparr>followingCount := Some (orZero (followingCount u) + 1)\<rparr>))
                       b (v\<lparr>followerCount := Some (orZero (followerCount v) + 1)\<rparr>))"
      using inv by (intro usersOk_two_writes)
        (simp_all add: store_inv_def countersOk_following_up countersOk_follower_up)
    have f: "followsOk (map_set (follows s) fid
               \<lparr>f_id = fid, followerId = a, followingId = b, f_createdAt = Some now\<rparr>)"
      using inv none by (intro followsOk_add) (simp_all add: store_inv_def findFollow_None_iff)
    show ?thesis
      using inv u f none ne by (simp add: followUser_def store_inv_def Let_def)
  qed
qed

lemma store_inv_unfollowUser: "store_inv s \<Longrightarrow> store_inv (snd (unfollowUser s a b))"
proof -
  assume inv: "store_inv s"
  show ?thesis
  proof (cases "findFollow s a b")
    case None
    then show ?thesis using inv by (simp add: unfollowUser_def)
  next
    case (Some fl)
    have u: "usersOk (case map_get (users s) b of
                    None \<Rightarrow> (case map_get (users s) a of None \<Rightarrow> users s
                       | Some u \<Rightarrow> map_set (users s) a (u\<lparr>followingCount := Some (max 0 (orZero (followingCount u) - 1))\<rparr>))
                  | Some v \<Rightarrow> map_set (case map_get (users s) a of None \<Rightarrow> users s
                       | Some u \<Rightarrow> map_set (users s) a (u\<lparr>followingCount := Some (max 0 (orZero (followingCount u) - 1))\<rparr>))
                       b (v\<lparr>followerCount := Some (max 0 (orZero (followerCount v) - 1))\<rparr>))"
      using inv by (intro usersOk_two_writes)
        (simp_all add: store_inv_def countersOk_following_down countersOk_follower_down)
    show ?thesis
      using inv u Some by (simp add: unfollowUser_def store_inv_def Let_def followsOk_delete)
  qed
qed

lemma statsRowsOk_update:
  assumes ok: "statsRowsOk (tweetStats s)"
  shows "statsRowsOk (tweetStats (updateTweetStatsForEngagement s tid ty delta now0 now))"
proof -
  define st0 where "st0 = (case map_get (tweetStats s) tid of
                   Some st \<Rightarrow> st
                 | None \<Rightarrow> \<lparr>s_tweetId = tid, replyCount = Some 0, retweetCount = Some 0,
                            likeCount = Some 0, bookmarkCount = Some 0,
                            impressionCount = Some 0, s_updatedAt = Some now0\<rparr>)"
  have st0: "statsOk st0 \<and> s_tweetId st0 = tid"
  proof (cases "map_get (tweetStats s) tid")
    case None
    then show ?thesis by (simp add: st0_def statsOk_def orZero_def)
  next
    case (Some st)
    with ok show ?thesis
      by (auto simp: st0_def statsRowsOk_def dest: keyed_get_id map_get_in_values)
  qed
  define st2 where "st2 = (case ty of
      Like \<Rightarrow> st0\<lparr>likeCount := Some (max 0 (orZero (likeCount st0) + delta))\<rparr>
    | Retweet \<Rightarrow> st0\<lparr>retweetCount := Some (max 0 (orZero (retweetCount st0) + delta))\<rparr>
    | Bookmark \<Rightarrow> st0\<lparr>bookmarkCount := Some (max 0 (orZero (bookmarkCount st0) + delta))\<rparr>)
      \<lparr>s_updatedAt := Some now\<rparr>"
  have st2: "statsOk st2 \<and> s_tweetId st2 = tid"
    using st0 by (cases ty) (simp_all add: st2_def statsOk_def orZero_def)
  have eq: "tweetStats (updateTweetStatsForEngagement s tid ty delta now0 now)
          = map_set (tweetStats s) tid st2"
    unfolding st2_def st0_def by (simp add: updateTweetStatsForEngagement_def Let_def)
  show ?thesis
    unfolding eq statsRowsOk_def
    using ok st2 by (auto simp: statsRowsOk_def intro: keyed_map_set
        dest: subsetD[OF values_map_set_subset])
qed

lemma updateStats_frame:
  "users (updateTweetStatsForEngagement s tid ty delta now0 now) = users s"
  "tweets (updateTweetStatsForEngagement s tid ty delta now0 now) = tweets s"
  "mentions (updateTweetStatsForEngagement s tid ty delta now0 now) = mentions s"
  "follows (updateTweetStatsForEngagement s tid ty delta now0 now) = follows s"
  "engagements (updateTweetStatsForEngagement s tid ty delta now0 now) = engagements s"
  by (simp_all add: updateTweetStatsForEngagement_def Let_def)

lemma store_inv_updateStats:
  "store_inv s \<Longrightarrow> store_inv (updateTweetStatsForEngagement s tid ty delta now0 now)"
  by (simp add: store_inv_def updateStats_frame statsRowsOk_update)

lemma store_inv_engage:
  "store_inv s \<Longrightarrow> store_inv (snd (engageWithTweet s uid tid ty eid now now0 now1))"
proof (cases "findEngagement s uid tid ty")
  case None
  assume inv: "store_inv s"
  then have "store_inv (s\<lparr>engagements := map_set (engagements s) eid
       \<lparr>e_id = eid, e_tweetId = tid, e_userId = uid, e_type = ty, e_createdAt = Some now\<rparr>\<rparr>)"
    by (simp add: store_inv_def keyed_map_set)
  then show ?thesis using None
    by (simp add: engageWithTweet_def Let_def store_inv_updateStats)
next
  case (Some e)
  assume "store_inv s"
  then show ?thesis using Some by (simp add: engageWithTweet_def)
qed

lemma store_inv_remove:
  "store_inv s \<Longrightarrow> store_inv (snd (removeEngagement s uid tid ty now0 now1))"
proof (cases "findEngagement s uid tid ty")
  case None
  assume "store_inv s"
  then show ?thesis using None by (simp add: removeEngagement_def)
next
  case (Some e)
  assume inv: "store_inv s"
  then have "store_inv (s\<lparr>engagements := snd (map_delete (engagements s) (e_id e))\<rparr>)"
    by (simp add: store_inv_def keyed_map_delete)
  then show ?thesis using Some
    by (simp add: removeEngagement_def Let_def store_inv_updateStats)
qed

lemma reachable_inv: "reachable s \<Longrightarrow> store_inv s"
proof (induction rule: reachable.induct)
  case r_init show ?case by (rule store_inv_empty)
next
  case (r_reset s) show ?case by (simp add: reset_def store_inv_empty)
qed (simp_all add: store_inv_createUser store_inv_createTweet store_inv_updateTweet
      store_inv_deleteTweet store_inv_createMention store_inv_followUser
      store_inv_unfollowUser store_inv_engage store_inv_remove)

section \<open>Evaluating the example stores\<close>

lemmas store_eval =
  emptyStore_def createUser_def createTweet_def updateTweet_def deleteTweet_def
  createMention_def followUser_def unfollowUser_def engageWithTweet_def removeEngagement_def
  updateTweetStatsForEngagement_def getUser_def getTweetById_def getTweetStats_def
  getUserEngagement_def findFollow_def findEngagement_def isFollowing_def deleteEach_def
  map_get_def map_set_def map_delete_def map_values_def orZero_def Let_def split_def

lemmas demo_defs = aliceDraft_def bobDraft_def twoUsers_def oneTweet_def likedTweet_def

section \<open>Properties of the store\<close>

subsection \<open>Updating a tweet\<close>

text \<open>
  Claim C6. For an existing tweet id, \<open>updateTweet\<close> returns and stores the old
  tweet with only \<open>content\<close> replaced: id, author, creation time and every other
  field are those of the old tweet, every other tweet is unchanged, the order of the
  map is unchanged, and no other map of the store is touched. For an id that is not
  in the store the call fails with the not-found error and the store is unchanged.
\<close>

theorem updateTweet_frame:
  "(getTweetById s tid = None \<longrightarrow> updateTweet s tid c = (Inl TweetNotFound, s)) \<and>
   (\<forall>t. getTweetById s tid = Some t \<longrightarrow>
      fst (updateTweet s tid c) = Inr (t\<lparr>content := c\<rparr>) \<and>
      getTweetById (snd (updateTweet s tid c)) tid = Some (t\<lparr>content := c\<rparr>) \<and>
      t_id (t\<lparr>content := c\<rparr>) = t_id t \<and>
      authorId (t\<lparr>content := c\<rparr>) = authorId t \<and>
      t_createdAt (t\<lparr>content := c\<rparr>) = t_createdAt t \<and>
      (t\<lparr>content := c\<rparr>)\<lparr>content := content t\<rparr> = t \<and>
      (\<forall>k. k \<noteq> tid \<longrightarrow>
         getTweetById (snd (updateTweet s tid c)) k = getTweetById s k) \<and>
      map fst (tweets (snd (updateTweet s tid c))) = map fst (tweets s) \<and>
      snd (updateTweet s tid c) = s\<lparr>tweets := tweets (snd (updateTweet s tid c))\<rparr>)"
proof (intro conjI allI impI)
  assume "getTweetById s tid = None"
  then show "updateTweet s tid c = (Inl TweetNotFound, s)"
    by (simp add: updateTweet_def getTweetById_def)
next
  fix t assume t: "getTweetById s tid = Some t"
  then have upd: "updateTweet s tid c =
      (Inr (t\<lparr>content := c\<rparr>), s\<lparr>tweets := map_set (tweets s) tid (t\<lparr>content := c\<rparr>)\<rparr>)"
    by (simp add: updateTweet_def getTweetById_def Let_def)
  show "fst (updateTweet s tid c) = Inr (t\<lparr>content := c\<rparr>)"
    by (simp add: upd)
  show "getTweetById (snd (updateTweet s tid c)) tid = Some (t\<lparr>content := c\<rparr>)"
    by (simp add: upd getTweetById_def map_get_set)
  show "t_id (t\<lparr>content := c\<rparr>) = t_id t" by simp
  show "authorId (t\<lparr>content := c\<rparr>) = authorId t" by simp
  show "t_createdAt (t\<lparr>content := c\<rparr>) = t_createdAt t" by simp
  show "(t\<lparr>content := c\<rparr>)\<lparr>content := content t\<rparr> = t" by simp
  show "map fst (tweets (snd (updateTweet s tid c))) = map fst (tweets s)"
    using t by (simp add: upd map_set_def getTweetById_def map_get_def update_keys
        map_of_eq_None_iff[symmetric])
  show "snd (updateTweet s tid c) = s\<lparr>tweets := tweets (snd (updateTweet s tid c))\<rparr>"
    by (simp add: upd)
  fix k assume "k \<noteq> tid"
  then show "getTweetById (snd (updateTweet s tid c)) k = getTweetById s k"
    by (simp add: upd getTweetById_def map_get_set)
qed

theorem updateTweet_frame_witness:
  "fst (updateTweet oneTweet ''t1'' ''bye'') =
     Inr \<lparr>t_id = ''t1'', content = ''bye'', authorId = ''u2'', parentTweetId = None,
           isRetweet = Some False, originalTweetId = None, mediaUrls = None,
           hashtags = None, t_createdAt = Some 3, t_updatedAt = Some 3,
           t_deletedAt = None\<rparr> \<and>
   getTweetById (snd (updateTweet oneTweet ''t1'' ''bye'')) ''zz'' = getTweetById oneTweet ''zz'' \<and>
   updateTweet oneTweet ''zz'' ''bye'' = (Inl TweetNotFound, oneTweet)"
proof -
  have a: "getTweetById oneTweet ''t1'' =
     Some \<lparr>t_id = ''t1'', content = ''hi @alice'', authorId = ''u2'', parentTweetId = None,
           isRetweet = Some False, originalTweetId = None, mediaUrls = None,
           hashtags = None, t_createdAt = Some 3, t_updatedAt = Some 3,
           t_deletedAt = None\<rparr>"
    by (simp add: demo_defs store_eval)
  have b: "getTweetById oneTweet ''zz'' = None"
    by (simp add: demo_defs store_eval)
  have c: "''zz'' \<noteq> ''t1''" by simp
  from updateTweet_frame[of oneTweet "''t1''" "''bye''"] a c
       updateTweet_frame[of oneTweet "''zz''" "''bye''"] b
  show ?thesis by simp
qed

subsection \<open>Following without registration\<close>

text \<open>
  Claim C9. \<open>followUser a b\<close> never looks at whether \<open>a\<close> or \<open>b\<close> is a user: for
  different ids without an edge the call succeeds and stores the edge; a missing user
  is simply not written (it stays missing), while the other user's counter, if that
  user exists, is still incremented. The call cannot fail with a not-found error.
\<close>

theorem followUser_without_registration:
  assumes "a \<noteq> b" and "\<not> isFollowing s a b"
  shows "fst (followUser s a b fid now) =
           Inr \<lparr>f_id = fid, followerId = a, followingId = b, f_createdAt = Some now\<rparr> \<and>
         follows (snd (followUser s a b fid now)) =
           map_set (follows s) fid
             \<lparr>f_id = fid, followerId = a, followingId = b, f_createdAt = Some now\<rparr> \<and>
         isFollowing (snd (followUser s a b fid now)) a b \<and>
         (getUser s a = None \<longrightarrow>
            getUser (snd (followUser s a b fid now)) a = None \<and>
            users (snd (followUser s a b fid now)) =
              (case getUser s b of
                 None \<Rightarrow> users s
               | Some u \<Rightarrow> map_set (users s) b
                   (u\<lparr>followerCount := Some (orZero (followerCount u) + 1)\<rparr>))) \<and>
         (getUser s b = None \<longrightarrow>
            getUser (snd (followUser s a b fid now)) b = None \<and>
            users (snd (followUser s a b fid now)) =
              (case getUser s a of
                 None \<Rightarrow> users s
               | Some u \<Rightarrow> map_set (users s) a
                   (u\<lparr>followingCount := Some (orZero (followingCount u) + 1)\<rparr>)))"
proof -
  from assms(2) have none: "findFollow s a b = None" by (simp add: isFollowing_iff)
  let ?fl = "\<lparr>f_id = fid, followerId = a, followingId = b, f_createdAt = Some now\<rparr>"
  have "isFollowing (s\<lparr>follows := map_set (follows s) fid ?fl, users := us\<rparr>) a b" for us
    unfolding isFollowing_def list_ex_iff
    by simp (rule bexI[OF _ values_map_set_mem], simp)
  then show ?thesis
    using assms(1) none
    by (auto simp: followUser_def Let_def getUser_def map_get_set split: option.splits)
qed

theorem followUser_without_registration_witness:
  "fst (followUser twoUsers ''ghost'' ''u1'' ''f1'' 5) =
     Inr \<lparr>f_id = ''f1'', followerId = ''ghost'', followingId = ''u1'', f_createdAt = Some 5\<rparr> \<and>
   getUser (snd (followUser twoUsers ''ghost'' ''u1'' ''f1'' 5)) ''ghost'' = None \<and>
   isFollowing (snd (followUser twoUsers ''ghost'' ''u1'' ''f1'' 5)) ''ghost'' ''u1''"
proof -
  have a: "''ghost'' \<noteq> ''u1''" by simp
  have b: "\<not> isFollowing twoUsers ''ghost'' ''u1''"
    by (simp add: demo_defs store_eval)
  have c: "getUser twoUsers ''ghost'' = None"
    by (simp add: demo_defs store_eval)
  from followUser_without_registration[OF a b, of "''f1''" 5] c
  show ?thesis by simp
qed

subsection \<open>Deleting a tweet leaves engagements and counters alone\<close>

text \<open>
  Claim C10. \<open>deleteTweet\<close> cascades to mentions only: whether it succeeds or
  fails, the engagement map and the stats map are the same afterwards, so
  \<open>getTweetStats\<close> and \<open>getUserEngagement\<close> answer as before.
\<close>

theorem deleteTweet_keeps_engagements:
  "engagements (snd (deleteTweet s tid)) = engagements s \<and>
   tweetStats (snd (deleteTweet s tid)) = tweetStats s \<and>
   getTweetStats (snd (deleteTweet s tid)) t = getTweetStats s t \<and>
   getUserEngagement (snd (deleteTweet s tid)) u t = getUserEngagement s u t"
  by (simp add: deleteTweet_def split_def Let_def getTweetStats_def getUserEngagement_def)

theorem deleteTweet_keeps_engagements_witness:
  "getTweetById (snd (deleteTweet likedTweet ''t1'')) ''t1'' = None \<and>
   getTweetStats (snd (deleteTweet likedTweet ''t1'')) ''t1'' =
     Some \<lparr>s_tweetId = ''t1'', replyCount = Some 0, retweetCount = Some 0,
            likeCount = Some 1, bookmarkCount = Some 0, impressionCount = Some 0,
            s_updatedAt = Some 6\<rparr> \<and>
   map e_id (getUserEngagement (snd (deleteTweet likedTweet ''t1'')) ''u1'' ''t1'') = [''e1'']"
proof -
  have a: "getTweetStats likedTweet ''t1'' =
     Some \<lparr>s_tweetId = ''t1'', replyCount = Some 0, retweetCount = Some 0,
            likeCount = Some 1, bookmarkCount = Some 0, impressionCount = Some 0,
            s_updatedAt = Some 6\<rparr>"
    by (simp add: demo_defs store_eval)
  have b: "map e_id (getUserEngagement likedTweet ''u1'' ''t1'') = [''e1'']"
    by (simp add: demo_defs store_eval)
  have c: "getTweetById (snd (deleteTweet likedTweet ''t1'')) ''t1'' = None"
    by (simp add: demo_defs store_eval)
  from deleteTweet_keeps_engagements[of likedTweet "''t1''" "''t1''" "''u1''"] a b c
  show ?thesis by simp
qed

subsection \<open>Deleting a tweet\<close>

lemma keyed_inj_on: "keyed idf m \<Longrightarrow> inj_on idf (set (map_values m))"
  using keyed_distinct_ids[of idf m] by (simp add: distinct_map)

lemma values_deleteEach:
  "keyed m_id m \<Longrightarrow>
   map_values (deleteEach m ms) = filter (\<lambda>v. m_id v \<notin> m_id ` set ms) (map_values m)"
proof (induction ms arbitrary: m)
  case Nil
  then show ?case by (simp add: deleteEach_def)
next
  case (Cons x xs)
  have step: "deleteEach m (x # xs) = deleteEach (snd (map_delete m (m_id x))) xs"
    by (simp add: deleteEach_def)
  have k': "keyed m_id (snd (map_delete m (m_id x)))"
    using Cons.prems by (rule keyed_map_delete)
  show ?case
    unfolding step Cons.IH[OF k'] keyed_values_delete[OF Cons.prems]
    by (auto intro: filter_cong)
qed

lemma values_deleteEach_filter:
  assumes k: "keyed m_id m"
  shows "map_values (deleteEach m (filter p (map_values m))) = filter (\<lambda>v. \<not> p v) (map_values m)"
proof -
  have "m_id v \<in> m_id ` set (filter p (map_values m)) \<longleftrightarrow> p v"
    if "v \<in> set (map_values m)" for v
    using keyed_inj_on[OF k] that by (auto dest: inj_onD)
  then show ?thesis
    unfolding values_deleteEach[OF k] by (auto intro: filter_cong)
qed

text \<open>
  Claim C7. In a state the operations can produce, \<open>deleteTweet\<close> on an existing id
  succeeds, the tweet is gone from \<open>getTweetById\<close> while every other tweet stays,
  exactly the mention rows of that tweet are removed, and \<open>getTweetMentions\<close> of the
  id is empty afterwards. On an id that is not in the store the call fails with the
  not-found error and the store is unchanged.
\<close>

theorem deleteTweet_cascade:
  assumes "reachable s"
  shows "(getTweetById s tid = None \<longrightarrow> deleteTweet s tid = (Inl TweetNotFound, s)) \<and>
         (getTweetById s tid \<noteq> None \<longrightarrow>
            fst (deleteTweet s tid) = Inr () \<and>
            getTweetById (snd (deleteTweet s tid)) tid = None \<and>
            (\<forall>k. k \<noteq> tid \<longrightarrow>
               getTweetById (snd (deleteTweet s tid)) k = getTweetById s k) \<and>
            map_values (mentions (snd (deleteTweet s tid))) =
              filter (\<lambda>m. m_tweetId m \<noteq> tid) (map_values (mentions s)) \<and>
            getTweetMentions (snd (deleteTweet s tid)) tid = [])"
proof (intro conjI impI allI)
  assume "getTweetById s tid = None"
  then show "deleteTweet s tid = (Inl TweetNotFound, s)"
    by (simp add: deleteTweet_def getTweetById_def map_delete_absent)
next
  assume ex: "getTweetById s tid \<noteq> None"
  from assms have k: "keyed m_id (mentions s)"
    by (auto dest: reachable_inv simp: store_inv_def)
  from ex have d: "fst (map_delete (tweets s) tid)"
    by (auto simp: getTweetById_def dest: map_delete_present)
  have del: "deleteTweet s tid =
     (Inr (), s\<lparr>tweets := snd (map_delete (tweets s) tid),
                 mentions := deleteEach (mentions s)
                   (filter (\<lambda>x. m_tweetId x = tid) (map_values (mentions s)))\<rparr>)"
    using d by (simp add: deleteTweet_def split_def Let_def)
  show "fst (deleteTweet s tid) = Inr ()" by (simp add: del)
  show "getTweetById (snd (deleteTweet s tid)) tid = None"
    by (simp add: del getTweetById_def map_get_delete)
  show m: "map_values (mentions (snd (deleteTweet s tid))) =
        filter (\<lambda>m. m_tweetId m \<noteq> tid) (map_values (mentions s))"
    by (simp add: del values_deleteEach_filter[OF k])
  show "getTweetMentions (snd (deleteTweet s tid)) tid = []"
    unfolding getTweetMentions_def m by simp
  fix k' assume "k' \<noteq> tid"
  then show "getTweetById (snd (deleteTweet s tid)) k' = getTweetById s k'"
    by (simp add: del getTweetById_def map_get_delete)
qed

theorem deleteTweet_cascade_witness:
  "map u_id (getTweetMentions mentionedTweet ''t1'') = [''u1''] \<and>
   fst (deleteTweet mentionedTweet ''t1'') = Inr () \<and>
   getTweetById (snd (deleteTweet mentionedTweet ''t1'')) ''t1'' = None \<and>
   getTweetMentions (snd (deleteTweet mentionedTweet ''t1'')) ''t1'' = [] \<and>
   deleteTweet mentionedTweet ''zz'' = (Inl TweetNotFound, mentionedTweet)"
proof -
  have r: "reachable mentionedTweet"
    unfolding mentionedTweet_def oneTweet_def twoUsers_def by (intro reachable.intros)
  have a: "getTweetById mentionedTweet ''t1'' \<noteq> None"
    by (simp add: mentionedTweet_def oneTweet_def twoUsers_def aliceDraft_def bobDraft_def store_eval)
  have b: "getTweetById mentionedTweet ''zz'' = None"
    by (simp add: mentionedTweet_def oneTweet_def twoUsers_def aliceDraft_def bobDraft_def store_eval)
  have c: "map u_id (getTweetMentions mentionedTweet ''t1'') = [''u1'']"
    by (simp add: mentionedTweet_def oneTweet_def twoUsers_def aliceDraft_def bobDraft_def
        getTweetMentions_def store_eval)
  from deleteTweet_cascade[OF r, of "''t1''"] deleteTweet_cascade[OF r, of "''zz''"] a b c
  show ?thesis by simp
qed

subsection \<open>Errors of follow and unfollow\<close>

lemma unfollow_values:
  assumes ok: "followsOk m"
    and fl: "fl \<in> set (map_values m)" "followerId fl = a" "followingId fl = b"
  shows "map_values (snd (map_delete m (f_id fl))) =
         filter (\<lambda>f. \<not> (followerId f = a \<and> followingId f = b)) (map_values m)"
proof -
  from ok have k: "keyed f_id m" and u: "edgesUnique (map_values m)"
    by (simp_all add: followsOk_def)
  have "f_id v \<noteq> f_id fl \<longleftrightarrow> \<not> (followerId v = a \<and> followingId v = b)"
    if "v \<in> set (map_values m)" for v
  proof
    assume "f_id v \<noteq> f_id fl"
    then have "v \<noteq> fl" by auto
    with u that fl show "\<not> (followerId v = a \<and> followingId v = b)"
      unfolding edgesUnique_def by blast
  next
    assume "\<not> (followerId v = a \<and> followingId v = b)"
    with fl have "v \<noteq> fl" by auto
    with keyed_inj_on[OF k] that fl(1) show "f_id v \<noteq> f_id fl"
      by (auto dest: inj_onD)
  qed
  then show ?thesis
    unfolding keyed_values_delete[OF k] by (auto intro: filter_cong)
qed

text \<open>
  Claim C3. \<open>followUser a b\<close> fails with the self-follow error exactly when
  \<open>a = b\<close>, with the duplicate error exactly when \<open>a \<noteq> b\<close> and an edge from \<open>a\<close>
  to \<open>b\<close> exists, and leaves the store unchanged in both cases; otherwise it returns
  the new edge and stores it under the generated id, which for an unused id appends
  exactly this one row. \<open>unfollowUser a b\<close> fails with the not-following error
  exactly when there is no such edge, leaving the store unchanged; otherwise it
  succeeds, the edge from \<open>a\<close> to \<open>b\<close> is gone and every other edge is kept.
\<close>

theorem follow_unfollow_errors:
  assumes "reachable s"
  shows "(fst (followUser s a b fid now) = Inl CannotFollowYourself \<longleftrightarrow> a = b) \<and>
         (fst (followUser s a b fid now) = Inl AlreadyFollowing \<longleftrightarrow>
            a \<noteq> b \<and> isFollowing s a b) \<and>
         (a = b \<or> isFollowing s a b \<longrightarrow> snd (followUser s a b fid now) = s) \<and>
         (a \<noteq> b \<and> \<not> isFollowing s a b \<longrightarrow>
            fst (followUser s a b fid now) =
              Inr \<lparr>f_id = fid, followerId = a, followingId = b, f_createdAt = Some now\<rparr> \<and>
            follows (snd (followUser s a b fid now)) =
              map_set (follows s) fid
                \<lparr>f_id = fid, followerId = a, followingId = b, f_createdAt = Some now\<rparr> \<and>
            (fid \<notin> fst ` set (follows s) \<longrightarrow>
               follows (snd (followUser s a b fid now)) =
                 follows s @ [(fid, \<lparr>f_id = fid, followerId = a, followingId = b,
                                      f_createdAt = Some now\<rparr>)])) \<and>
         (fst (unfollowUser s a b) = Inl NotFollowing \<longleftrightarrow> \<not> isFollowing s a b) \<and>
         (\<not> isFollowing s a b \<longrightarrow> snd (unfollowUser s a b) = s) \<and>
         (isFollowing s a b \<longrightarrow>
            fst (unfollowUser s a b) = Inr () \<and>
            \<not> isFollowing (snd (unfollowUser s a b)) a b \<and>
            map_values (follows (snd (unfollowUser s a b))) =
              filter (\<lambda>f. \<not> (followerId f = a \<and> followingId f = b)) (map_values (follows s)))"
proof -
  have f1: "fst (followUser s a b fid now) = Inl CannotFollowYourself \<longleftrightarrow> a = b"
    by (auto simp: followUser_def Let_def split: option.splits)
  have f2: "fst (followUser s a b fid now) = Inl AlreadyFollowing \<longleftrightarrow> a \<noteq> b \<and> isFollowing s a b"
    by (auto simp: followUser_def Let_def isFollowing_iff split: option.splits)
  have f3: "a = b \<or> isFollowing s a b \<longrightarrow> snd (followUser s a b fid now) = s"
    by (auto simp: followUser_def Let_def isFollowing_iff split: option.splits)
  have f4: "a \<noteq> b \<and> \<not> isFollowing s a b \<longrightarrow>
            fst (followUser s a b fid now) =
              Inr \<lparr>f_id = fid, followerId = a, followingId = b, f_createdAt = Some now\<rparr> \<and>
            follows (snd (followUser s a b fid now)) =
              map_set (follows s) fid
                \<lparr>f_id = fid, followerId = a, followingId = b, f_createdAt = Some now\<rparr>"
    by (simp add: followUser_def Let_def isFollowing_iff)
  have u1: "fst (unfollowUser s a b) = Inl NotFollowing \<longleftrightarrow> \<not> isFollowing s a b"
    by (auto simp: unfollowUser_def Let_def isFollowing_iff split: option.splits)
  have u2: "\<not> isFollowing s a b \<longrightarrow> snd (unfollowUser s a b) = s"
    by (simp add: unfollowUser_def isFollowing_iff)
  have u3: "fst (unfollowUser s a b) = Inr () \<and>
            \<not> isFollowing (snd (unfollowUser s a b)) a b \<and>
            map_values (follows (snd (unfollowUser s a b))) =
              filter (\<lambda>f. \<not> (followerId f = a \<and> followingId f = b)) (map_values (follows s))"
    if "isFollowing s a b"
  proof -
    from that obtain fl where fl: "findFollow s a b = Some fl"
      by (auto simp: isFollowing_iff)
    from assms have ok: "followsOk (follows s)"
      by (auto dest: reachable_inv simp: store_inv_def)
    have fol: "follows (snd (unfollowUser s a b)) = snd (map_delete (follows s) (f_id fl))"
      using fl by (simp add: unfollowUser_def Let_def)
    have v: "map_values (follows (snd (unfollowUser s a b))) =
              filter (\<lambda>f. \<not> (followerId f = a \<and> followingId f = b)) (map_values (follows s))"
      unfolding fol using findFollow_SomeD[OF fl] by (intro unfollow_values[OF ok]) simp_all
    have "\<not> isFollowing (snd (unfollowUser s a b)) a b"
      unfolding isFollowing_def list_ex_iff v by simp
    moreover have "fst (unfollowUser s a b) = Inr ()"
      using fl by (simp add: unfollowUser_def Let_def)
    ultimately show ?thesis using v by simp
  qed
  show ?thesis
    using f1 f2 f3 f4 u1 u2 u3 by (simp add: map_set_fresh)
qed

theorem follow_unfollow_errors_witness:
  "fst (followUser twoUsers ''u1'' ''u1'' ''f1'' 5) = Inl CannotFollowYourself \<and>
   map fst (follows (snd (followUser twoUsers ''u1'' ''u2'' ''f1'' 5))) = [''f1''] \<and>
   fst (followUser followed ''u1'' ''u2'' ''f2'' 6) = Inl AlreadyFollowing \<and>
   fst (unfollowUser twoUsers ''u1'' ''u2'') = Inl NotFollowing \<and>
   fst (unfollowUser followed ''u1'' ''u2'') = Inr () \<and>
   map_values (follows (snd (unfollowUser followed ''u1'' ''u2''))) = []"
proof -
  have r0: "reachable twoUsers"
    unfolding twoUsers_def by (intro reachable.intros)
  have r1: "reachable followed"
    unfolding followed_def twoUsers_def by (intro reachable.intros)
  have a: "''u1'' \<noteq> ''u2''" by simp
  have b: "\<not> isFollowing twoUsers ''u1'' ''u2''" "follows twoUsers = []"
    by (simp_all add: twoUsers_def aliceDraft_def bobDraft_def store_eval)
  have c: "isFollowing followed ''u1'' ''u2''"
    "map_values (follows followed) =
       [\<lparr>f_id = ''f1'', followerId = ''u1'', followingId = ''u2'', f_createdAt = Some 5\<rparr>]"
    by (simp_all add: followed_def twoUsers_def aliceDraft_def bobDraft_def store_eval)
  from follow_unfollow_errors[OF r0, of "''u1''" "''u1''" "''f1''" 5]
       follow_unfollow_errors[OF r0, of "''u1''" "''u2''" "''f1''" 5]
       follow_unfollow_errors[OF r1, of "''u1''" "''u2''" "''f2''" 6]
       a b c
  show ?thesis by (simp add: map_set_def)
qed

subsection \<open>Follow and unfollow counters\<close>

lemma update_commute_present:
  "k \<noteq> k' \<Longrightarrow> k \<in> fst ` set al \<Longrightarrow>
   AList.update k v (AList.update k' v' al) = AList.update k' v' (AList.update k v al)"
  by (induction al) auto

lemma map_set_twice_restore:
  assumes ne: "a \<noteq> b"
    and ga: "map_get us a = Some ua" and gb: "map_get us b = Some ub"
  shows "map_set (map_set (map_set (map_set us a ua') b ub') a ua) b ub = us"
proof -
  have ina: "a \<in> fst ` set (AList.update a ua' us)" by (simp add: dom_update)
  have "AList.update b ub (AList.update a ua (AList.update b ub' (AList.update a ua' us)))
      = AList.update b ub (AList.update b ub' (AList.update a ua (AList.update a ua' us)))"
    using update_commute_present[OF ne ina, of ua ub'] by simp
  also have "\<dots> = AList.update b ub (AList.update a ua us)" by simp
  also have "\<dots> = us" using ga gb by (simp add: map_get_def update_triv)
  finally show ?thesis by (simp add: map_set_def)
qed

lemma reachable_runFollowOps: "reachable s \<Longrightarrow> reachable (runFollowOps s ops)"
  unfolding runFollowOps_def
proof (induction ops arbitrary: s)
  case Nil
  then show ?case by simp
next
  case (Cons x xs)
  have "reachable (applyFollowOp s x)"
    using Cons.prems by (cases x) (auto intro: reachable.intros)
  then show ?case using Cons.IH by simp
qed

lemma countersOk_following: "countersOk u \<Longrightarrow> followingCount u = Some (orZero (followingCount u)) \<and> 0 \<le> orZero (followingCount u)"
  by (auto simp: countersOk_def orZero_def split: option.splits)

lemma countersOk_follower: "countersOk u \<Longrightarrow> followerCount u = Some (orZero (followerCount u)) \<and> 0 \<le> orZero (followerCount u)"
  by (auto simp: countersOk_def orZero_def split: option.splits)

text \<open>
  Claim C2. In a state the operations can produce: when \<open>a\<close> and \<open>b\<close> are different
  registered users without an edge from \<open>a\<close> to \<open>b\<close>, both counters are numbers,
  \<open>followUser a b\<close> adds exactly one to the following-count of \<open>a\<close> and to the
  follower-count of \<open>b\<close> and changes nothing else in the two rows, and the
  \<open>unfollowUser a b\<close> that follows succeeds and gives back the two rows, and the
  whole user map, as they were. And, whatever users and edges the state has, after
  any sequence of follow and unfollow calls every counter of every user is a number
  at or above zero.
\<close>

theorem follow_unfollow_counters:
  assumes r: "reachable s"
  shows "(a \<noteq> b \<and> getUser s a = Some ua \<and> getUser s b = Some ub \<and> \<not> isFollowing s a b \<longrightarrow>
            followingCount ua \<noteq> None \<and> followerCount ub \<noteq> None \<and>
            getUser (snd (followUser s a b fid now)) a =
              Some (ua\<lparr>followingCount := Some (the (followingCount ua) + 1)\<rparr>) \<and>
            getUser (snd (followUser s a b fid now)) b =
              Some (ub\<lparr>followerCount := Some (the (followerCount ub) + 1)\<rparr>) \<and>
            fst (unfollowUser (snd (followUser s a b fid now)) a b) = Inr () \<and>
            getUser (snd (unfollowUser (snd (followUser s a b fid now)) a b)) a = Some ua \<and>
            getUser (snd (unfollowUser (snd (followUser s a b fid now)) a b)) b = Some ub \<and>
            users (snd (unfollowUser (snd (followUser s a b fid now)) a b)) = users s) \<and>
         (\<forall>ops. \<forall>u \<in> set (map_values (users (runFollowOps s ops))).
            (case followerCount u of None \<Rightarrow> False | Some n \<Rightarrow> 0 \<le> n) \<and>
            (case followingCount u of None \<Rightarrow> False | Some n \<Rightarrow> 0 \<le> n))"
proof -
  have pair: "followingCount ua \<noteq> None \<and> followerCount ub \<noteq> None \<and>
            getUser (snd (followUser s a b fid now)) a =
              Some (ua\<lparr>followingCount := Some (the (followingCount ua) + 1)\<rparr>) \<and>
            getUser (snd (followUser s a b fid now)) b =
              Some (ub\<lparr>followerCount := Some (the (followerCount ub) + 1)\<rparr>) \<and>
            fst (unfollowUser (snd (followUser s a b fid now)) a b) = Inr () \<and>
            getUser (snd (unfollowUser (snd (followUser s a b fid now)) a b)) a = Some ua \<and>
            getUser (snd (unfollowUser (snd (followUser s a b fid now)) a b)) b = Some ub \<and>
            users (snd (unfollowUser (snd (followUser s a b fid now)) a b)) = users s"
    if ne: "a \<noteq> b" and ga: "getUser s a = Some ua" and gb: "getUser s b = Some ub"
      and nf: "\<not> isFollowing s a b"
  proof -
  from r have uok: "usersOk (users s)" by (auto dest: reachable_inv simp: store_inv_def)
  from uok ga have ca: "countersOk ua" by (auto simp: getUser_def dest: usersOk_get)
  from uok gb have cb: "countersOk ub" by (auto simp: getUser_def dest: usersOk_get)
  let ?n = "orZero (followingCount ua)" and ?m = "orZero (followerCount ub)"
  have na: "followingCount ua = Some ?n" "0 \<le> ?n"
    using countersOk_following[OF ca] by blast+
  have mb: "followerCount ub = Some ?m" "0 \<le> ?m"
    using countersOk_follower[OF cb] by blast+
  let ?ua' = "ua\<lparr>followingCount := Some (?n + 1)\<rparr>"
  let ?ub' = "ub\<lparr>followerCount := Some (?m + 1)\<rparr>"
  let ?fl = "\<lparr>f_id = fid, followerId = a, followingId = b, f_createdAt = Some now\<rparr>"
  let ?s1 = "snd (followUser s a b fid now)"
  from nf have none: "findFollow s a b = None" by (simp add: isFollowing_iff)
  have s1: "?s1 = s\<lparr>follows := map_set (follows s) fid ?fl,
                    users := map_set (map_set (users s) a ?ua') b ?ub'\<rparr>"
    using ne none ga gb by (simp add: followUser_def Let_def getUser_def)
  have g1a: "map_get (users ?s1) a = Some ?ua'" using ne by (simp add: s1 map_get_set)
  have g1b: "map_get (users ?s1) b = Some ?ub'" by (simp add: s1 map_get_set)
  have "isFollowing ?s1 a b"
    unfolding s1 isFollowing_def list_ex_iff
    by simp (rule bexI[OF _ values_map_set_mem], simp)
  then obtain fl where fl: "findFollow ?s1 a b = Some fl" by (auto simp: isFollowing_iff)
  have back_a: "?ua'\<lparr>followingCount := Some (max 0 (orZero (followingCount ?ua') - 1))\<rparr> = ua"
    using na by (simp add: orZero_def)
  have back_b: "?ub'\<lparr>followerCount := Some (max 0 (orZero (followerCount ?ub') - 1))\<rparr> = ub"
    using mb by (simp add: orZero_def)
  let ?s2 = "snd (unfollowUser ?s1 a b)"
  have u2: "users ?s2 = map_set (map_set (users ?s1) a ua) b ub"
    using fl g1a g1b back_a back_b by (simp add: unfollowUser_def Let_def)
  have "users ?s2 = map_set (map_set (map_set (map_set (users s) a ?ua') b ?ub') a ua) b ub"
    unfolding u2 by (simp add: s1)
  also have "\<dots> = users s"
    using ne ga gb by (intro map_set_twice_restore) (simp_all add: getUser_def)
  finally have restore: "users ?s2 = users s" .
  have ok2: "fst (unfollowUser ?s1 a b) = Inr ()"
    using fl by (simp add: unfollowUser_def Let_def)
  have ta: "followingCount ua \<noteq> None" "the (followingCount ua) = ?n"
    using ca by (auto simp: countersOk_def orZero_def split: option.splits)
  have tb: "followerCount ub \<noteq> None" "the (followerCount ub) = ?m"
    using cb by (auto simp: countersOk_def orZero_def split: option.splits)
  show ?thesis
    using ta tb g1a g1b ok2 restore ga gb
    by (simp add: getUser_def)
  qed
  have never: "\<forall>ops. \<forall>u \<in> set (map_values (users (runFollowOps s ops))).
            (case followerCount u of None \<Rightarrow> False | Some n \<Rightarrow> 0 \<le> n) \<and>
            (case followingCount u of None \<Rightarrow> False | Some n \<Rightarrow> 0 \<le> n)"
  proof (intro allI ballI)
    fix ops u assume u: "u \<in> set (map_values (users (runFollowOps s ops)))"
    have "store_inv (runFollowOps s ops)"
      using r by (intro reachable_inv reachable_runFollowOps)
    with u have "countersOk u" by (auto simp: store_inv_def usersOk_def)
    then show "(case followerCount u of None \<Rightarrow> False | Some n \<Rightarrow> 0 \<le> n) \<and>
            (case followingCount u of None \<Rightarrow> False | Some n \<Rightarrow> 0 \<le> n)"
      by (simp add: countersOk_def)
  qed
  from pair never show ?thesis by blast
qed

theorem follow_unfollow_counters_witness:
  "map_option followingCount (getUser followedBack ''u1'') = Some (Some 0) \<and>
   map_option followerCount (getUser followedBack ''u2'') = Some (Some 0) \<and>
   map_option followingCount (getUser (snd (followUser followedBack ''u1'' ''u2'' ''f1'' 5)) ''u1'')
     = Some (Some 1) \<and>
   map_option followerCount (getUser (snd (followUser followedBack ''u1'' ''u2'' ''f1'' 5)) ''u2'')
     = Some (Some 1) \<and>
   users (snd (unfollowUser (snd (followUser followedBack ''u1'' ''u2'' ''f1'' 5)) ''u1'' ''u2''))
     = users followedBack \<and>
   map followingCount (map_values (users (runFollowOps followedBack
        [Unfollow ''u2'' ''u1'', Unfollow ''u2'' ''u1'', Follow ''u1'' ''u2'' ''f2'' 6])))
     = [Some 1, Some 0] \<and>
   isFollowing earlyEdge ''u1'' ''u2'' \<and>
   map followingCount (map_values (users earlyEdge)) = [Some 0, Some 0] \<and>
   map followingCount (map_values (users (runFollowOps earlyEdge [Unfollow ''u1'' ''u2''])))
     = [Some 0, Some 0] \<and>
   map followerCount (map_values (users (runFollowOps earlyEdge [Unfollow ''u1'' ''u2''])))
     = [Some 0, Some 0] \<and>
   \<not> isFollowing (runFollowOps earlyEdge [Unfollow ''u1'' ''u2'']) ''u1'' ''u2''"
proof -
  have r: "reachable followedBack"
    unfolding followedBack_def twoUsers_def by (intro reachable.intros)
  have r': "reachable earlyEdge"
    unfolding earlyEdge_def by (intro reachable.intros)
  obtain ua where ga: "getUser followedBack ''u1'' = Some ua"
    and ca: "followingCount ua = Some 0"
    by (simp add: followedBack_def twoUsers_def aliceDraft_def bobDraft_def store_eval)
  obtain ub where gb: "getUser followedBack ''u2'' = Some ub"
    and cb: "followerCount ub = Some 0"
    by (simp add: followedBack_def twoUsers_def aliceDraft_def bobDraft_def store_eval)
  have nf: "\<not> isFollowing followedBack ''u1'' ''u2''"
    by (simp add: followedBack_def twoUsers_def aliceDraft_def bobDraft_def store_eval)
  have pre: "''u1'' \<noteq> ''u2'' \<and> getUser followedBack ''u1'' = Some ua \<and>
             getUser followedBack ''u2'' = Some ub \<and> \<not> isFollowing followedBack ''u1'' ''u2''"
    using ga gb nf by simp
  have ops: "map followingCount (map_values (users (runFollowOps followedBack
        [Unfollow ''u2'' ''u1'', Unfollow ''u2'' ''u1'', Follow ''u1'' ''u2'' ''f2'' 6])))
     = [Some 1, Some 0]"
    by (simp add: runFollowOps_def followedBack_def twoUsers_def aliceDraft_def bobDraft_def
        store_eval)
  have early: "isFollowing earlyEdge ''u1'' ''u2''"
    "map followingCount (map_values (users earlyEdge)) = [Some 0, Some 0]"
    "map followingCount (map_values (users (runFollowOps earlyEdge [Unfollow ''u1'' ''u2''])))
       = [Some 0, Some 0]"
    "map followerCount (map_values (users (runFollowOps earlyEdge [Unfollow ''u1'' ''u2''])))
       = [Some 0, Some 0]"
    "\<not> isFollowing (runFollowOps earlyEdge [Unfollow ''u1'' ''u2'']) ''u1'' ''u2''"
    by (simp_all add: runFollowOps_def earlyEdge_def aliceDraft_def bobDraft_def store_eval)
  note pair = conjunct1[OF follow_unfollow_counters[OF r, where a="''u1''" and b="''u2''"
        and ua=ua and ub=ub and fid="''f1''" and now=5], THEN mp, OF pre]
  note never = conjunct2[OF follow_unfollow_counters[OF r', where a="''u1''" and b="''u2''"
        and ua=ua and ub=ub and fid="''f1''" and now=5]]
  from pair never ga gb ca cb ops early
  show ?thesis by simp
qed

subsection \<open>Engagements\<close>



lemma find_unique:
  assumes "x \<in> set xs" and "p x" and "\<forall>y \<in> set xs. p y \<longrightarrow> y = x"
  shows "find p xs = Some x"
proof (cases "find p xs")
  case None
  with assms(1,2) show ?thesis by (simp add: find_None_iff)
next
  case (Some y)
  then have "p y \<and> y \<in> set xs" by (auto simp: find_Some_iff)
  with assms(3) Some show ?thesis by blast
qed








subsection \<open>The timeline\<close>

lemma findIndex_found:
  "\<exists>x \<in> set xs. p x \<Longrightarrow>
   0 \<le> findIndex p xs \<and> nat (findIndex p xs) < length xs \<and> p (xs ! nat (findIndex p xs))"
proof (induction xs)
  case Nil
  then show ?case by simp
next
  case (Cons a xs)
  show ?case
  proof (cases "p a")
    case True
    then show ?thesis by simp
  next
    case False
    with Cons.prems have "\<exists>x \<in> set xs. p x" by auto
    from Cons.IH[OF this] False show ?thesis
      by (simp add: Let_def nat_add_distrib)
  qed
qed

lemma uniqueById_subset: "set (uniqueById xs) \<subseteq> set xs"
proof
  fix x assume "x \<in> set (uniqueById xs)"
  then obtain i where "(i, x) \<in> set (enumerate 0 xs)"
    by (auto simp: uniqueById_def)
  then show "x \<in> set xs" by (auto simp: in_set_enumerate_eq)
qed

lemma uniqueById_covers:
  assumes "x \<in> set xs"
  shows "\<exists>y \<in> set (uniqueById xs). t_id y = t_id x"
proof -
  let ?p = "\<lambda>t'. t_id t' = t_id x"
  let ?i = "nat (findIndex ?p xs)"
  from assms have "\<exists>z \<in> set xs. ?p z" by auto
  from findIndex_found[OF this]
  have i: "0 \<le> findIndex ?p xs" "?i < length xs" "t_id (xs ! ?i) = t_id x" by auto
  have "(?i, xs ! ?i) \<in> set (enumerate 0 xs)"
    using i(2) by (simp add: in_set_enumerate_eq)
  moreover have "int ?i = findIndex (\<lambda>t'. t_id t' = t_id (xs ! ?i)) xs"
    using i(1,3) by simp
  ultimately have "xs ! ?i \<in> set (uniqueById xs)"
    unfolding uniqueById_def by (force simp: image_iff)
  with i(3) show ?thesis by blast
qed

lemma uniqueById_distinct: "distinct (map t_id (uniqueById xs))"
proof -
  let ?R = "\<lambda>(index, t). int index = findIndex (\<lambda>t'. t_id t' = t_id t) xs"
  let ?L = "filter ?R (enumerate 0 xs)"
  have d: "distinct ?L" by (simp add: distinct_enumerate)
  have inj: "inj_on (\<lambda>p. t_id (snd p)) (set ?L)"
  proof (rule inj_onI)
    fix p q assume p: "p \<in> set ?L" and q: "q \<in> set ?L"
      and eq: "t_id (snd p) = t_id (snd q)"
    obtain i x where pd: "p = (i, x)" by (cases p)
    obtain j y where qd: "q = (j, y)" by (cases q)
    from p q eq pd qd have "int i = int j" by simp
    then have ij: "i = j" by simp
    from p pd have "x = xs ! i" by (auto simp: in_set_enumerate_eq)
    moreover from q qd have "y = xs ! j" by (auto simp: in_set_enumerate_eq)
    ultimately show "p = q" using ij pd qd by simp
  qed
  have "map t_id (uniqueById xs) = map (\<lambda>p. t_id (snd p)) ?L"
    by (simp add: uniqueById_def)
  then show ?thesis using d inj by (simp add: distinct_map)
qed

lemma uniqueById_set:
  assumes "inj_on t_id (set xs)"
  shows "set (uniqueById xs) = set xs"
proof
  show "set (uniqueById xs) \<subseteq> set xs" by (rule uniqueById_subset)
  show "set xs \<subseteq> set (uniqueById xs)"
  proof
    fix x assume x: "x \<in> set xs"
    from uniqueById_covers[OF x] obtain y where y: "y \<in> set (uniqueById xs)" "t_id y = t_id x"
      by blast
    with uniqueById_subset have "y \<in> set xs" by blast
    with assms x y(2) have "y = x" by (auto dest: inj_onD)
    with y(1) show "x \<in> set (uniqueById xs)" by simp
  qed
qed

lemma joinAuthor_fields:
  "t_id (joinAuthor t a) = t_id t"
  "authorId (joinAuthor t a) = authorId t"
  "content (joinAuthor t a) = content t"
  "t_createdAt (joinAuthor t a) = t_createdAt t"
  "author (joinAuthor t a) = a"
  "mentionList (joinAuthor t a) = extractMentionsFromContent (content t)"
  by (simp_all add: joinAuthor_def tweet.defs tweetWithAuthor.defs)

lemma set_tweetsWithAuthors:
  "set (tweetsWithAuthors s ts) =
     {joinAuthor t a | t a. t \<in> set ts \<and> getUser s (authorId t) = Some a}"
proof (induction ts)
  case Nil
  then show ?case by (simp add: tweetsWithAuthors_def)
next
  case (Cons t ts)
  have split: "tweetsWithAuthors s (t # ts) =
     (case getUser s (authorId t) of None \<Rightarrow> [] | Some a \<Rightarrow> [joinAuthor t a])
       @ tweetsWithAuthors s ts"
    by (simp add: tweetsWithAuthors_def)
  show ?case
  proof (cases "getUser s (authorId t)")
    case None
    then show ?thesis by (auto simp: split Cons.IH)
  next
    case (Some a)
    then show ?thesis by (auto simp: split Cons.IH)
  qed
qed

lemma ids_tweetsWithAuthors:
  "set (map t_id (tweetsWithAuthors s ts)) \<subseteq> set (map t_id ts)"
  unfolding set_map set_tweetsWithAuthors by (auto simp: joinAuthor_fields)

lemma distinct_tweetsWithAuthors:
  "distinct (map t_id ts) \<Longrightarrow> distinct (map t_id (tweetsWithAuthors s ts))"
proof (induction ts)
  case Nil
  then show ?case by (simp add: tweetsWithAuthors_def)
next
  case (Cons t ts)
  have split: "tweetsWithAuthors s (t # ts) =
     (case getUser s (authorId t) of None \<Rightarrow> [] | Some a \<Rightarrow> [joinAuthor t a])
       @ tweetsWithAuthors s ts"
    by (simp add: tweetsWithAuthors_def)
  from Cons.prems have "t_id t \<notin> set (map t_id ts)" by simp
  with ids_tweetsWithAuthors[of s ts]
  have "t_id t \<notin> set (map t_id (tweetsWithAuthors s ts))" by blast
  with Cons show ?case
    unfolding split by (auto simp: joinAuthor_fields split: option.splits)
qed

lemma distinct_map_sort_key:
  "distinct (map f (sort_key g xs)) = distinct (map f xs)"
  by (simp add: distinct_map)

lemma sorted_desc: "sorted_wrt (\<lambda>x y. timeOf y \<le> timeOf x) (sortByCreatedAtDesc xs)"
proof -
  have "sorted (map (\<lambda>t. - timeOf t) (sortByCreatedAtDesc xs))"
    unfolding sortByCreatedAtDesc_def by (rule sorted_sort_key)
  then show ?thesis by (simp add: sorted_map)
qed

lemma getAllTweets_set:
  "set (getAllTweets s) =
     {joinAuthor t a | t a. t \<in> set (map_values (tweets s)) \<and> getUser s (authorId t) = Some a}"
  by (simp add: getAllTweets_def sortByCreatedAtDesc_def set_tweetsWithAuthors)

lemma getAllTweets_distinct:
  assumes "keyed t_id (tweets s)"
  shows "distinct (map t_id (getAllTweets s))"
  unfolding getAllTweets_def sortByCreatedAtDesc_def distinct_map_sort_key
  using assms by (intro distinct_tweetsWithAuthors keyed_distinct_ids)

lemma mentionResolvesTo_iff:
  "mentionResolvesTo s uid m \<longleftrightarrow> map_option u_id (getUserByUsername s m) = Some uid"
  by (simp add: mentionResolvesTo_def getUserByUsername_def split: option.splits)

lemma timeline_set:
  assumes k: "keyed t_id (tweets s)"
  shows "set (getUserTimeline s uid) =
     {x \<in> set (getAllTweets s).
        authorId x = uid \<or> (\<exists>m \<in> set (mentionList x). mentionResolvesTo s uid m)}"
proof -
  let ?all = "getAllTweets s"
  let ?tl = "filter (\<lambda>t. authorId t = uid) ?all
           @ filter (\<lambda>t. list_ex (mentionResolvesTo s uid) (mentionList t)) ?all"
  have "inj_on t_id (set ?all)"
    using getAllTweets_distinct[OF k] by (simp add: distinct_map)
  then have "inj_on t_id (set ?tl)"
    by (rule inj_on_subset) auto
  then have "set (uniqueById ?tl) = set ?tl" by (rule uniqueById_set)
  then show ?thesis
    by (auto simp: getUserTimeline_def Let_def sortByCreatedAtDesc_def list_ex_iff)
qed

lemma timeline_distinct: "distinct (map t_id (getUserTimeline s uid))"
  by (simp add: getUserTimeline_def Let_def sortByCreatedAtDesc_def distinct_map_sort_key
      uniqueById_distinct)

lemma timeline_sorted: "sorted_wrt (\<lambda>x y. timeOf y \<le> timeOf x) (getUserTimeline s uid)"
  by (simp add: getUserTimeline_def Let_def sorted_desc)

lemma find_by_key_distinct:
  assumes "distinct (map f xs)"
  shows "find (\<lambda>u. f u = m) xs = Some u \<longleftrightarrow> u \<in> set xs \<and> f u = m"
proof
  assume "find (\<lambda>u. f u = m) xs = Some u"
  then show "u \<in> set xs \<and> f u = m" by (auto simp: find_Some_iff)
next
  assume u: "u \<in> set xs \<and> f u = m"
  from assms have "inj_on f (set xs)" by (simp add: distinct_map)
  with u have "\<forall>y \<in> set xs. f y = m \<longrightarrow> y = u" by (auto dest: inj_onD)
  with u show "find (\<lambda>u. f u = m) xs = Some u" by (intro find_unique) auto
qed

lemma resolves_is_username:
  assumes k: "keyed u_id (users s)" and res: "mentionResolvesTo s uid m"
  shows "map_option username (getUser s uid) = Some m"
proof -
  from res obtain u where f: "find (\<lambda>u. username u = m) (map_values (users s)) = Some u"
    and i: "u_id u = uid"
    by (auto simp: mentionResolvesTo_def split: option.splits)
  from f have "u \<in> set (map_values (users s))" "username u = m"
    by (auto simp: find_Some_iff)
  with k i have "getUser s uid = Some u" by (simp add: getUser_def keyed_get_iff)
  with \<open>username u = m\<close> show ?thesis by simp
qed

lemma username_resolves:
  assumes k: "keyed u_id (users s)"
    and d: "distinct (map username (map_values (users s)))"
    and g: "map_option username (getUser s uid) = Some m"
  shows "mentionResolvesTo s uid m"
proof -
  from g obtain u where u: "getUser s uid = Some u" "username u = m" by auto
  with k have "u \<in> set (map_values (users s))" "u_id u = uid"
    by (simp_all add: getUser_def keyed_get_iff)
  with u(2) d have "find (\<lambda>u. username u = m) (map_values (users s)) = Some u"
    by (simp add: find_by_key_distinct)
  with \<open>u_id u = uid\<close> show ?thesis by (simp add: mentionResolvesTo_def)
qed

text \<open>
  Claim C1, as amended. In a state the operations can produce, the timeline of \<open>uid\<close>
  holds exactly the tweets, joined with their existing author, that \<open>uid\<close> authored or
  whose content has a token \<open>@m\<close> for which the username lookup of \<open>m\<close> (the first
  user in insertion order with that username) yields the id \<open>uid\<close>; no tweet id occurs
  twice; the order is descending by creation time. A token that resolves to \<open>uid\<close> is
  the username of \<open>uid\<close>, so the timeline never holds a tweet that \<open>uid\<close> neither
  authored nor is named in. When the usernames in the store are pairwise different,
  the mention condition is the one of the claim: the content has a token \<open>@m\<close> with
  \<open>m\<close> the username of \<open>uid\<close>.
\<close>

theorem getUserTimeline_spec:
  assumes r: "reachable s"
  shows "set (getUserTimeline s uid) =
           {joinAuthor t a | t a.
              t \<in> set (map_values (tweets s)) \<and> getUser s (authorId t) = Some a \<and>
              (authorId t = uid \<or>
               (\<exists>m \<in> set (extractMentionsFromContent (content t)).
                  map_option u_id (getUserByUsername s m) = Some uid))} \<and>
         distinct (map t_id (getUserTimeline s uid)) \<and>
         sorted_wrt (\<lambda>x y. timeOf y \<le> timeOf x) (getUserTimeline s uid) \<and>
         (\<forall>m. map_option u_id (getUserByUsername s m) = Some uid \<longrightarrow>
              map_option username (getUser s uid) = Some m) \<and>
         (distinct (map username (map_values (users s))) \<longrightarrow>
            set (getUserTimeline s uid) =
              {joinAuthor t a | t a.
                 t \<in> set (map_values (tweets s)) \<and> getUser s (authorId t) = Some a \<and>
                 (authorId t = uid \<or>
                  (\<exists>u. getUser s uid = Some u \<and>
                       username u \<in> set (extractMentionsFromContent (content t))))})"
proof -
  from r have kt: "keyed t_id (tweets s)" and ku: "keyed u_id (users s)"
    by (auto dest: reachable_inv simp: store_inv_def usersOk_def)
  have A: "set (getUserTimeline s uid) =
           {joinAuthor t a | t a.
              t \<in> set (map_values (tweets s)) \<and> getUser s (authorId t) = Some a \<and>
              (authorId t = uid \<or>
               (\<exists>m \<in> set (extractMentionsFromContent (content t)).
                  map_option u_id (getUserByUsername s m) = Some uid))}"
    unfolding timeline_set[OF kt] getAllTweets_set mentionResolvesTo_iff
    by (auto simp: joinAuthor_fields; blast)
  have B: "map_option username (getUser s uid) = Some m"
    if "map_option u_id (getUserByUsername s m) = Some uid" for m
    using that resolves_is_username[OF ku, of uid m] by (simp add: mentionResolvesTo_iff)
  have C: "map_option u_id (getUserByUsername s m) = Some uid \<longleftrightarrow>
           (\<exists>u. getUser s uid = Some u \<and> username u = m)"
    if d: "distinct (map username (map_values (users s)))" for m
  proof
    assume "map_option u_id (getUserByUsername s m) = Some uid"
    from B[OF this] show "\<exists>u. getUser s uid = Some u \<and> username u = m" by auto
  next
    assume "\<exists>u. getUser s uid = Some u \<and> username u = m"
    then have "map_option username (getUser s uid) = Some m" by auto
    from username_resolves[OF ku d this]
    show "map_option u_id (getUserByUsername s m) = Some uid"
      by (simp add: mentionResolvesTo_iff)
  qed
  have D: "set (getUserTimeline s uid) =
              {joinAuthor t a | t a.
                 t \<in> set (map_values (tweets s)) \<and> getUser s (authorId t) = Some a \<and>
                 (authorId t = uid \<or>
                  (\<exists>u. getUser s uid = Some u \<and>
                       username u \<in> set (extractMentionsFromContent (content t))))}"
    if d: "distinct (map username (map_values (users s)))"
    unfolding A C[OF d] by blast
  from A B D timeline_distinct[of s uid] timeline_sorted[of s uid]
  show ?thesis by blast
qed

text \<open>The unfolding rules for evaluating a timeline on an example store.\<close>

lemmas timeline_eval =
  getUserTimeline_def getAllTweets_def tweetsWithAuthors_def joinAuthor_def
  sortByCreatedAtDesc_def uniqueById_def mentionResolvesTo_def timeOf_def isWordChar_def
  tweet.defs tweetWithAuthor.defs

theorem getUserTimeline_spec_witness:
  "map t_id (getUserTimeline timelineDemo ''u1'') = [''t2'', ''t3'', ''t1''] \<and>
   map t_id (getUserTimeline timelineDemo ''u2'') = [''t1''] \<and>
   distinct (map t_id (getUserTimeline timelineDemo ''u1'')) \<and>
   sorted_wrt (\<lambda>x y. timeOf y \<le> timeOf x) (getUserTimeline timelineDemo ''u1'')"
proof -
  have r: "reachable timelineDemo"
    unfolding timelineDemo_def oneTweet_def twoUsers_def by (intro reachable.intros)
  have d: "distinct (map username (map_values (users timelineDemo)))"
    by (simp add: timelineDemo_def oneTweet_def twoUsers_def aliceDraft_def bobDraft_def
        store_eval)
  have a: "map t_id (getUserTimeline timelineDemo ''u1'') = [''t2'', ''t3'', ''t1'']"
    by (simp add: timelineDemo_def oneTweet_def twoUsers_def aliceDraft_def bobDraft_def
        store_eval timeline_eval)
  have b: "map t_id (getUserTimeline timelineDemo ''u2'') = [''t1'']"
    by (simp add: timelineDemo_def oneTweet_def twoUsers_def aliceDraft_def bobDraft_def
        store_eval timeline_eval)
  from getUserTimeline_spec[OF r, of "''u1''"] d a b show ?thesis by simp
qed

text \<open>
  Claim C1 as stated fails where two users share a username. In \<open>dupNames\<close> the user
  \<open>u3\<close> has the username \<open>bob\<close>, the tweet \<open>t1\<close> of \<open>u1\<close> (an existing author) has
  the token \<open>bob\<close>, and yet the timeline of \<open>u3\<close> is empty: the lookup of \<open>bob\<close>
  finds \<open>u2\<close>, who registered first, and the tweet is in the timeline of \<open>u2\<close> only.
\<close>

theorem timeline_misses_second_namesake:
  "map_option username (getUser dupNames ''u3'') = Some ''bob'' \<and>
   map t_id (getAllTweets dupNames) = [''t1''] \<and>
   map authorId (getAllTweets dupNames) = [''u1''] \<and>
   map mentionList (getAllTweets dupNames) = [[''bob'']] \<and>
   getUserTimeline dupNames ''u3'' = [] \<and>
   map t_id (getUserTimeline dupNames ''u2'') = [''t1'']"
  by (simp add: dupNames_def twoUsers_def aliceDraft_def bobDraft_def bobAgain_def
      store_eval timeline_eval)

subsection \<open>Creating a tweet that mentions bob\<close>

lemma extract_hello_bob: "extractMentionsFromContent ''Hello @bob'' = [''bob'']"
  by (simp add: isWordChar_def)

lemma postTweet_single_mention:
  assumes parse: "insertTweetSchema_parse (Some c) = Some c"
    and ext: "extractMentionsFromContent c = [name]"
  shows
  "(case fst (postTweet s authId (Some c) uuid clock) of
      BadRequest \<Rightarrow> False
    | Created resp \<Rightarrow>
        r_mentions resp = [name] \<and> t_id resp = uuid 0 \<and>
        content resp = c \<and> authorId resp = authId \<and>
        r_author resp = getUser s authId \<and>
        tweet.truncate resp =
          \<lparr>t_id = uuid 0, content = c, authorId = authId, parentTweetId = None,
            isRetweet = Some False, originalTweetId = None, mediaUrls = None,
            hashtags = None, t_createdAt = Some (clock 0), t_updatedAt = Some (clock 1),
            t_deletedAt = None\<rparr>) \<and>
   getTweetById (snd (postTweet s authId (Some c) uuid clock)) (uuid 0) =
     Some \<lparr>t_id = uuid 0, content = c, authorId = authId, parentTweetId = None,
            isRetweet = Some False, originalTweetId = None, mediaUrls = None,
            hashtags = None, t_createdAt = Some (clock 0), t_updatedAt = Some (clock 1),
            t_deletedAt = None\<rparr> \<and>
   tweets (snd (postTweet s authId (Some c) uuid clock)) =
     map_set (tweets s) (uuid 0)
          \<lparr>t_id = uuid 0, content = c, authorId = authId, parentTweetId = None,
            isRetweet = Some False, originalTweetId = None, mediaUrls = None,
            hashtags = None, t_createdAt = Some (clock 0), t_updatedAt = Some (clock 1),
            t_deletedAt = None\<rparr> \<and>
   (uuid 0 \<notin> fst ` set (tweets s) \<longrightarrow>
      map_values (tweets (snd (postTweet s authId (Some c) uuid clock))) =
        map_values (tweets s) @
          [\<lparr>t_id = uuid 0, content = c, authorId = authId, parentTweetId = None,
            isRetweet = Some False, originalTweetId = None, mediaUrls = None,
            hashtags = None, t_createdAt = Some (clock 0), t_updatedAt = Some (clock 1),
            t_deletedAt = None\<rparr>]) \<and>
   users (snd (postTweet s authId (Some c) uuid clock)) = users s \<and>
   (getUserByUsername s name = None \<longrightarrow>
      mentions (snd (postTweet s authId (Some c) uuid clock)) = mentions s) \<and>
   (\<forall>u. getUserByUsername s name = Some u \<longrightarrow>
      mentions (snd (postTweet s authId (Some c) uuid clock)) =
        map_set (mentions s) (uuid 1)
          \<lparr>m_id = uuid 1, m_tweetId = uuid 0, m_userId = u_id u, m_createdAt = Some (clock 2)\<rparr> \<and>
      (uuid 1 \<notin> fst ` set (mentions s) \<longrightarrow>
         map_values (mentions (snd (postTweet s authId (Some c) uuid clock))) =
           map_values (mentions s) @
             [\<lparr>m_id = uuid 1, m_tweetId = uuid 0, m_userId = u_id u,
               m_createdAt = Some (clock 2)\<rparr>]))"
proof -
  have look: "getUserByUsername (s\<lparr>tweets := ts\<rparr>) n = getUserByUsername s n" for ts n
    by (simp add: getUserByUsername_def)
  have two: "clock (Suc (Suc 0)) = clock 2" by (simp add: numeral_2_eq_2)
  show ?thesis
  proof (cases "getUserByUsername s name")
    case None
    then show ?thesis
      by (simp add: postTweet_def parse ext createTweet_def Let_def split_def
          look tweet.defs tweetResponse.defs getUser_def getTweetById_def map_get_set
          map_set_fresh map_values_def)
  next
    case (Some u)
    then show ?thesis
      by (simp add: postTweet_def parse ext createTweet_def createMention_def
          Let_def split_def look tweet.defs tweetResponse.defs getUser_def getTweetById_def
          map_get_set map_set_fresh map_values_def two)
  qed
qed

text \<open>
  Claim C5. The handler answers a tweet with content \<open>Hello @bob\<close> with status 201
  and the new tweet joined with its author and the raw token list \<open>[bob]\<close>, whether or
  not \<open>bob\<close> is registered. The tweet of the response is stored in the tweet map under
  its id, the first id generated, as one new row when that id is unused; the user map
  is unchanged. When no user has the username \<open>bob\<close> the mention map is unchanged.
  When the lookup finds a user, one mention row is written, with that user's id and
  the stored tweet's id, under the generated id, which for an unused id appends
  exactly this one row.
\<close>

theorem postTweet_hello_bob:
  "(case fst (postTweet s authId (Some ''Hello @bob'') uuid clock) of
      BadRequest \<Rightarrow> False
    | Created resp \<Rightarrow>
        r_mentions resp = [''bob''] \<and> t_id resp = uuid 0 \<and>
        content resp = ''Hello @bob'' \<and> authorId resp = authId \<and>
        r_author resp = getUser s authId \<and>
        tweet.truncate resp =
          \<lparr>t_id = uuid 0, content = ''Hello @bob'', authorId = authId, parentTweetId = None,
            isRetweet = Some False, originalTweetId = None, mediaUrls = None,
            hashtags = None, t_createdAt = Some (clock 0), t_updatedAt = Some (clock 1),
            t_deletedAt = None\<rparr>) \<and>
   getTweetById (snd (postTweet s authId (Some ''Hello @bob'') uuid clock)) (uuid 0) =
     Some \<lparr>t_id = uuid 0, content = ''Hello @bob'', authorId = authId, parentTweetId = None,
            isRetweet = Some False, originalTweetId = None, mediaUrls = None,
            hashtags = None, t_createdAt = Some (clock 0), t_updatedAt = Some (clock 1),
            t_deletedAt = None\<rparr> \<and>
   tweets (snd (postTweet s authId (Some ''Hello @bob'') uuid clock)) =
     map_set (tweets s) (uuid 0)
          \<lparr>t_id = uuid 0, content = ''Hello @bob'', authorId = authId, parentTweetId = None,
            isRetweet = Some False, originalTweetId = None, mediaUrls = None,
            hashtags = None, t_createdAt = Some (clock 0), t_updatedAt = Some (clock 1),
            t_deletedAt = None\<rparr> \<and>
   (uuid 0 \<notin> fst ` set (tweets s) \<longrightarrow>
      map_values (tweets (snd (postTweet s authId (Some ''Hello @bob'') uuid clock))) =
        map_values (tweets s) @
          [\<lparr>t_id = uuid 0, content = ''Hello @bob'', authorId = authId, parentTweetId = None,
            isRetweet = Some False, originalTweetId = None, mediaUrls = None,
            hashtags = None, t_createdAt = Some (clock 0), t_updatedAt = Some (clock 1),
            t_deletedAt = None\<rparr>]) \<and>
   users (snd (postTweet s authId (Some ''Hello @bob'') uuid clock)) = users s \<and>
   (getUserByUsername s ''bob'' = None \<longrightarrow>
      mentions (snd (postTweet s authId (Some ''Hello @bob'') uuid clock)) = mentions s) \<and>
   (\<forall>u. getUserByUsername s ''bob'' = Some u \<longrightarrow>
      mentions (snd (postTweet s authId (Some ''Hello @bob'') uuid clock)) =
        map_set (mentions s) (uuid 1)
          \<lparr>m_id = uuid 1, m_tweetId = uuid 0, m_userId = u_id u, m_createdAt = Some (clock 2)\<rparr> \<and>
      (uuid 1 \<notin> fst ` set (mentions s) \<longrightarrow>
         map_values (mentions (snd (postTweet s authId (Some ''Hello @bob'') uuid clock))) =
           map_values (mentions s) @
             [\<lparr>m_id = uuid 1, m_tweetId = uuid 0, m_userId = u_id u,
               m_createdAt = Some (clock 2)\<rparr>]))"
proof -
  have parse: "insertTweetSchema_parse (Some ''Hello @bob'') = Some ''Hello @bob''"
    by (simp add: insertTweetSchema_parse_def)
  show ?thesis
    by (rule postTweet_single_mention[OF parse extract_hello_bob])
qed

theorem postTweet_hello_bob_witness:
  "map m_userId (map_values (mentions (snd (postTweet twoUsers ''u1'' (Some ''Hello @bob'')
        demoUuid demoClock)))) = [''u2''] \<and>
   map m_tweetId (map_values (mentions (snd (postTweet twoUsers ''u1'' (Some ''Hello @bob'')
        demoUuid demoClock)))) = [''id-''] \<and>
   mentions (snd (postTweet oneUser ''u1'' (Some ''Hello @bob'') demoUuid demoClock)) = [] \<and>
   (case fst (postTweet oneUser ''u1'' (Some ''Hello @bob'') demoUuid demoClock) of
      BadRequest \<Rightarrow> False
    | Created resp \<Rightarrow> r_mentions resp = [''bob'']) \<and>
   map_option content (getTweetById (snd (postTweet twoUsers ''u1'' (Some ''Hello @bob'')
        demoUuid demoClock)) ''id-'') = Some ''Hello @bob'' \<and>
   map fst (tweets (snd (postTweet oneUser ''u1'' (Some ''Hello @bob'') demoUuid demoClock)))
     = [''id-'']"
proof -
  have f: "tweets oneUser = []"
    by (simp add: oneUser_def aliceDraft_def store_eval)
  obtain u where a: "getUserByUsername twoUsers ''bob'' = Some u" and b: "u_id u = ''u2''"
    by (simp add: twoUsers_def aliceDraft_def bobDraft_def getUserByUsername_def store_eval)
  have c: "mentions twoUsers = []" "demoUuid 1 \<notin> fst ` set (mentions twoUsers)"
    by (simp_all add: twoUsers_def aliceDraft_def bobDraft_def store_eval)
  have d: "getUserByUsername oneUser ''bob'' = None" "mentions oneUser = []"
    by (simp_all add: oneUser_def aliceDraft_def getUserByUsername_def store_eval)
  have e: "demoUuid 0 = ''id-''" by (simp add: demoUuid_def)
  from postTweet_hello_bob[where s=twoUsers and authId="''u1''" and uuid=demoUuid and clock=demoClock]
       postTweet_hello_bob[where s=oneUser and authId="''u1''" and uuid=demoUuid and clock=demoClock]
       a b c d e f
  show ?thesis by (auto simp: map_values_def map_set_def split: httpResponse.splits)
qed

subsection \<open>The profile projection carries the password\<close>

lemma getUserProfile_password:
  "getUser s uid = Some u \<Longrightarrow>
   map_option password (getUserProfile s uid viewer) = Some (password u)"
  by (simp add: getUserProfile_def Let_def user.defs userProfile.defs split: option.splits)

text \<open>
  Claim C8 does not hold of the code. \<open>getUserProfile\<close> copies the whole user row, so
  the projection carries the stored password: the profile of alice shows \<open>hashA\<close> in
  \<open>twoUsers\<close> and \<open>hashX\<close> in \<open>otherHash\<close>, two stores that differ in nothing but
  that hash, and the follower and following lists show the hashes of their members.
  The tweet list that GET /api/tweets sends as it is carries the author's hash as well.
\<close>

theorem getUserProfile_exposes_password:
  "map_option password (getUserProfile twoUsers ''u1'' None) = Some ''hashA'' \<and>
   map_option password (getUserProfile otherHash ''u1'' None) = Some ''hashX'' \<and>
   getUserProfile twoUsers ''u1'' None \<noteq> getUserProfile otherHash ''u1'' None \<and>
   map password (getUserFollowers followed ''u2'') = [''hashA''] \<and>
   map password (getUserFollowing followed ''u1'') = [''hashB''] \<and>
   map password (map author (getAllTweets oneTweet)) = [''hashB'']"
proof -
  have e: "map password (map author (getAllTweets oneTweet)) = [''hashB'']"
    by (simp add: oneTweet_def twoUsers_def aliceDraft_def bobDraft_def store_eval
        timeline_eval)
  have a: "map_option password (getUserProfile twoUsers ''u1'' None) = Some ''hashA''"
    by (simp add: twoUsers_def aliceDraft_def bobDraft_def getUserProfile_def
        user.defs userProfile.defs store_eval)
  have b: "map_option password (getUserProfile otherHash ''u1'' None) = Some ''hashX''"
    by (simp add: otherHash_def aliceDraft_def bobDraft_def getUserProfile_def
        user.defs userProfile.defs store_eval)
  have c: "map password (getUserFollowers followed ''u2'') = [''hashA'']"
    by (simp add: followed_def twoUsers_def aliceDraft_def bobDraft_def getUserFollowers_def
        profilesOf_def getUserProfile_def user.defs userProfile.defs store_eval)
  have d: "map password (getUserFollowing followed ''u1'') = [''hashB'']"
    by (simp add: followed_def twoUsers_def aliceDraft_def bobDraft_def getUserFollowing_def
        profilesOf_def getUserProfile_def user.defs userProfile.defs store_eval)
  from a b have "getUserProfile twoUsers ''u1'' None \<noteq> getUserProfile otherHash ''u1'' None"
    by auto
  with a b c d e show ?thesis by blast
qed

end
